theory Spec2Isabelle
  imports Main "HOL-Library.Code_Target_Nat"
begin

section \<open>Memory\<close>

text \<open>
  The column keeps its rows as \<open>std::string_view\<close>s, that is as pointers into byte
  arrays that it owns (arena blocks, moved-in strings) or that somebody else owns.
  Several properties are about what such a pointer still reads after other
  operations, so the byte arrays live in an explicit store.

  An address names one allocation; a pointer is an address and an offset. A cell of
  an allocation holds a byte or is indeterminate (\<open>None\<close>): \<open>new CharT[n]\<close> gives
  \<open>n\<close> indeterminate cells. A freed allocation is \<open>None\<close>. Addresses are never
  reused. No allocation fails, except in \<open>LoadBody\<close>: what it allocates is
  what the stream and the declared row count ask for, and there the allocator is a
  parameter of the call.

  A \<open>size_t\<close> is a \<open>nat\<close>, and \<open>size_t(-1)\<close> is \<open>SIZE_MAX\<close>. Where the code
  subtracts two sizes or sums the sizes of rows, the wrap-around at \<open>2 ^ 64\<close> is
  written out, and the theorems that need a sum to stay below \<open>2 ^ 64\<close> say so.
  The write offset of a block is not reduced: it stays within the capacity of an
  array that was allocated.
\<close>

type_synonym byte = char
type_synonym addr = nat
type_synonym buffer = "byte option list"
type_synonym memory = "buffer option list"

text \<open>\<open>std::string_view\<close>: the pointer (allocation and offset) and the length.\<close>

datatype string_view = StringView (sv_data: addr) (sv_off: nat) (sv_size: nat)

text \<open>
  What a call can end in besides returning: undefined behaviour (a read or write
  outside an allocation, through a dangling pointer or of indeterminate bytes,
  \<open>back()\<close> of an empty vector), \<open>std::out_of_range\<close> from \<open>vector::at\<close>,
  \<open>std::bad_cast\<close> from a \<open>dynamic_cast\<close> to a reference, \<open>std::length_error\<close>
  from \<open>vector::reserve\<close>, and \<open>std::bad_alloc\<close> from an allocation that is refused.
\<close>

datatype fault = UndefinedBehaviour | OutOfRange | BadCast | LengthError | BadAlloc

definition new_array :: "memory \<Rightarrow> nat \<Rightarrow> addr \<times> memory" where
  "new_array m n = (length m, m @ [Some (replicate n None)])"

text \<open>The storage of a \<open>std::string\<close> object that holds \<open>bs\<close>.\<close>

definition new_string :: "memory \<Rightarrow> byte list \<Rightarrow> addr \<times> memory" where
  "new_string m bs = (length m, m @ [Some (map Some bs)])"

text \<open>
  \<open>delete[]\<close>. The owners here are \<open>unique_ptr\<close>s and strings, which free what they
  own once; an address outside the memory is left alone.
\<close>

definition delete_array :: "memory \<Rightarrow> addr \<Rightarrow> memory" where
  "delete_array m a = m[a := None]"

text \<open>Reading the bytes a view denotes; \<open>None\<close> where the read is undefined.\<close>

definition read_bytes :: "memory \<Rightarrow> string_view \<Rightarrow> byte list option" where
  "read_bytes m v =
     (if sv_data v < length m then
        (case m ! sv_data v of
           None \<Rightarrow> None
         | Some buf \<Rightarrow>
             if sv_off v + sv_size v \<le> length buf
                \<and> None \<notin> set (take (sv_size v) (drop (sv_off v) buf))
             then Some (map the (take (sv_size v) (drop (sv_off v) buf)))
             else None)
      else None)"

text \<open>Writing \<open>bs\<close> at offset \<open>off\<close> of allocation \<open>a\<close>; \<open>None\<close> where the write is undefined.\<close>

definition write_bytes :: "memory \<Rightarrow> addr \<Rightarrow> nat \<Rightarrow> byte list \<Rightarrow> memory option" where
  "write_bytes m a off bs =
     (if a < length m then
        (case m ! a of
           None \<Rightarrow> None
         | Some buf \<Rightarrow>
             if off + length bs \<le> length buf
             then Some (m[a := Some (take off buf @ map Some bs @ drop (off + length bs) buf)])
             else None)
      else None)"

section \<open>The arena block\<close>

definition DEFAULT_BLOCK_SIZE :: nat where
  "DEFAULT_BLOCK_SIZE = 4096"

text \<open>\<open>size_t(-1)\<close>, and subtraction of \<open>size_t\<close> values, which wraps around.\<close>

definition SIZE_MAX :: nat where
  "SIZE_MAX = 2 ^ 64 - 1"

definition size_t_minus :: "nat \<Rightarrow> nat \<Rightarrow> nat" where
  "size_t_minus a b = (if b \<le> a then a - b else a + 2 ^ 64 - b)"

text \<open>
  \<open>Block\<close>, with its fields \<open>size\<close> (\<open>bsize\<close> here), \<open>capacity\<close> and \<open>data_\<close>
  (\<open>data\<close> here). \<open>data_\<close> is a \<open>unique_ptr\<close> to the array, so moving a block
  (when \<open>blocks_\<close> grows) moves the address and not the bytes.
\<close>

record Block =
  bsize :: nat
  capacity :: nat
  data :: addr

definition Block_ctor :: "memory \<Rightarrow> nat \<Rightarrow> Block \<times> memory" where
  "Block_ctor m starting_capacity =
     (case new_array m starting_capacity of
        (a, m') \<Rightarrow> (\<lparr>bsize = 0, capacity = starting_capacity, data = a\<rparr>, m'))"

definition GetAvailable :: "Block \<Rightarrow> nat" where
  "GetAvailable b = size_t_minus (capacity b) (bsize b)"

text \<open>
  \<open>Block::AppendUnsafe\<close>: \<open>memcpy\<close> of the bytes of \<open>str\<close> to \<open>&data_[size]\<close>, no
  bounds check. Returns the memory, the block and the view of the copy.
\<close>

definition Block_AppendUnsafe ::
  "memory \<Rightarrow> Block \<Rightarrow> string_view \<Rightarrow> fault + (memory \<times> Block \<times> string_view)" where
  "Block_AppendUnsafe m b str =
     (case read_bytes m str of
        None \<Rightarrow> Inl UndefinedBehaviour
      | Some bs \<Rightarrow>
          (case write_bytes m (data b) (bsize b) bs of
             None \<Rightarrow> Inl UndefinedBehaviour
           | Some m' \<Rightarrow>
               Inr (m', b\<lparr>bsize := bsize b + sv_size str\<rparr>,
                    StringView (data b) (bsize b) (sv_size str))))"

text \<open>\<open>GetCurrentWritePos\<close>: the pointer \<open>&data_[size]\<close>, as address and offset.\<close>

definition GetCurrentWritePos :: "Block \<Rightarrow> addr \<times> nat" where
  "GetCurrentWritePos b = (data b, bsize b)"

definition ConsumeTailAsStringViewUnsafe :: "Block \<Rightarrow> nat \<Rightarrow> Block \<times> string_view" where
  "ConsumeTailAsStringViewUnsafe b len =
     (b\<lparr>bsize := bsize b + len\<rparr>, StringView (data b) (bsize b) len)"

section \<open>The column\<close>

text \<open>
  \<open>ColumnIxJson\<close>, with its fields \<open>items_\<close> (the row index), \<open>blocks_\<close> (the
  arena) and \<open>append_data_\<close> (the deque of moved-in strings, each by the address of
  its storage); the names are written without the underscore here.
\<close>

record ColumnIxJson =
  items :: "string_view list"
  blocks :: "Block list"
  append_data :: "addr list"

definition ColumnIxJson_ctor :: ColumnIxJson where
  "ColumnIxJson_ctor = \<lparr>items = [], blocks = [], append_data = []\<rparr>"

definition Size :: "ColumnIxJson \<Rightarrow> nat" where
  "Size c = length (items c)"

text \<open>\<open>At\<close> is \<open>items_.at(n)\<close>, which checks the index.\<close>

definition At :: "ColumnIxJson \<Rightarrow> nat \<Rightarrow> fault + string_view" where
  "At c n = (if n < length (items c) then Inr (items c ! n) else Inl OutOfRange)"

text \<open>\<open>ColumnIxJson::AppendUnsafe\<close>: \<open>blocks_.back()\<close> is undefined on an empty vector.\<close>

definition AppendUnsafe ::
  "memory \<Rightarrow> ColumnIxJson \<Rightarrow> string_view \<Rightarrow> fault + (memory \<times> ColumnIxJson)" where
  "AppendUnsafe m c str =
     (if blocks c = [] then Inl UndefinedBehaviour
      else
        (case Block_AppendUnsafe m (last (blocks c)) str of
           Inl e \<Rightarrow> Inl e
         | Inr (m', b', v) \<Rightarrow>
             Inr (m', c\<lparr>items := items c @ [v], blocks := butlast (blocks c) @ [b']\<rparr>)))"

text \<open>
  \<open>blocks_.emplace_back(n)\<close>, and \<open>Append(std::string_view)\<close>, the managed copy.
\<close>

definition emplace_block :: "memory \<Rightarrow> ColumnIxJson \<Rightarrow> nat \<Rightarrow> memory \<times> ColumnIxJson" where
  "emplace_block m c n =
     (case Block_ctor m n of (b, m') \<Rightarrow> (m', c\<lparr>blocks := blocks c @ [b]\<rparr>))"

definition Append :: "memory \<Rightarrow> ColumnIxJson \<Rightarrow> string_view \<Rightarrow> fault + (memory \<times> ColumnIxJson)" where
  "Append m c str =
     (case (if length (blocks c) = 0 \<or> GetAvailable (last (blocks c)) < sv_size str
            then emplace_block m c (max DEFAULT_BLOCK_SIZE (sv_size str))
            else (m, c)) of
        (m1, c1) \<Rightarrow> AppendUnsafe m1 c1 str)"

text \<open>
  \<open>Append(const char*)\<close>. \<open>strlen\<close> counts the bytes before the first NUL; it is
  undefined when it meets an indeterminate cell or the end of the allocation first.
\<close>

definition strlen :: "memory \<Rightarrow> addr \<Rightarrow> nat \<Rightarrow> nat option" where
  "strlen m a off =
     (if a < length m then
        (case m ! a of
           None \<Rightarrow> None
         | Some buf \<Rightarrow>
             (let n = length (takeWhile (\<lambda>x. x \<noteq> None \<and> x \<noteq> Some (CHR 0x00)) (drop off buf))
              in if off + n < length buf \<and> buf ! (off + n) = Some (CHR 0x00)
                 then Some n else None))
      else None)"

definition Append_cstr ::
  "memory \<Rightarrow> ColumnIxJson \<Rightarrow> addr \<Rightarrow> nat \<Rightarrow> fault + (memory \<times> ColumnIxJson)" where
  "Append_cstr m c a off =
     (case strlen m a off of
        None \<Rightarrow> Inl UndefinedBehaviour
      | Some n \<Rightarrow> Append m c (StringView a off n))"

text \<open>
  \<open>Append(std::string&&)\<close>. The argument is the content of \<open>steal_value\<close>; the deque
  element that takes it over has storage of its own, which no later \<open>emplace_back\<close>
  on the deque moves.
\<close>

definition Append_move :: "memory \<Rightarrow> ColumnIxJson \<Rightarrow> byte list \<Rightarrow> memory \<times> ColumnIxJson" where
  "Append_move m c steal_value =
     (case new_string m steal_value of
        (last_data, m') \<Rightarrow>
          (m', c\<lparr>items := items c @ [StringView last_data 0 (length steal_value)],
                 append_data := append_data c @ [last_data]\<rparr>))"

definition AppendNoManagedLifetime :: "ColumnIxJson \<Rightarrow> string_view \<Rightarrow> ColumnIxJson" where
  "AppendNoManagedLifetime c str = c\<lparr>items := items c @ [str]\<rparr>"

text \<open>
  \<open>Clear\<close>. Clearing \<open>blocks_\<close> destroys every block, which frees its array;
  clearing \<open>append_data_\<close> frees the storage of every string.
\<close>

definition clear_blocks :: "memory \<Rightarrow> Block list \<Rightarrow> memory" where
  "clear_blocks m bs = fold (\<lambda>b m. delete_array m (data b)) bs m"

definition clear_strings :: "memory \<Rightarrow> addr list \<Rightarrow> memory" where
  "clear_strings m as = fold (\<lambda>a m. delete_array m a) as m"

definition Clear :: "memory \<Rightarrow> ColumnIxJson \<Rightarrow> memory \<times> ColumnIxJson" where
  "Clear m c =
     (clear_strings (clear_blocks m (blocks c)) (append_data c),
      c\<lparr>items := [], blocks := [], append_data := []\<rparr>)"

text \<open>\<open>operator[]\<close> does not check the index.\<close>

definition subscript :: "ColumnIxJson \<Rightarrow> nat \<Rightarrow> fault + string_view" where
  "subscript c n = (if n < length (items c) then Inr (items c ! n) else Inl UndefinedBehaviour)"

text \<open>
  \<open>ComputeTotalSize\<close>, on the sizes of the views. The sum is a \<open>size_t\<close> and wraps
  around.
\<close>

definition ComputeTotalSize :: "string_view list \<Rightarrow> nat \<Rightarrow> nat \<Rightarrow> nat" where
  "ComputeTotalSize strings begin len =
     (if begin < length strings then
        (let len' = min len (length strings - begin)
         in fold (\<lambda>i result. (result + sv_size (strings ! i)) mod 2 ^ 64)
              [begin ..< begin + len'] 0)
      else 0)"

section \<open>The wire codec\<close>

text \<open>
  \<open>WireFormat\<close> (\<open>base/wire_format.h\<close>) is not among the sources. An input stream is
  the list of the bytes still to be read, an output stream the list of the bytes
  written.
\<close>

text \<open>
  Modelled from the spec: the length prefix of \<open>WireFormat\<close>, which is missing. The
  spec: an 8-byte unsigned length. \<open>le_encode k n\<close> is \<open>n\<close> in \<open>k\<close> bytes, the least
  significant first, and \<open>le_decode\<close> reads such bytes back.
\<close>

fun le_encode :: "nat \<Rightarrow> nat \<Rightarrow> byte list" where
  "le_encode 0 n = []"
| "le_encode (Suc k) n = char_of (n mod 256) # le_encode k (n div 256)"

fun le_decode :: "byte list \<Rightarrow> nat" where
  "le_decode [] = 0"
| "le_decode (b # bs) = of_char b + 256 * le_decode bs"

text \<open>
  Modelled from the spec: \<open>WireFormat::ReadUInt64\<close> is missing. The spec: it reads an
  8-byte unsigned length prefix and reports success or failure. The byte order is
  taken to be little-endian; a failed read is taken to consume nothing.
\<close>

definition ReadUInt64 :: "byte list \<Rightarrow> (nat \<times> byte list) option" where
  "ReadUInt64 input =
     (if length input < 8 then None else Some (le_decode (take 8 input), drop 8 input))"

text \<open>
  Modelled from the spec: \<open>WireFormat::ReadBytes\<close> is missing. The spec: it reads
  exactly \<open>len\<close> bytes from the stream to the destination address and reports success
  or failure. A failed read is taken to consume and to write nothing. The result is
  the success flag, the memory and the rest of the stream.
\<close>

definition ReadBytes ::
  "byte list \<Rightarrow> memory \<Rightarrow> addr \<times> nat \<Rightarrow> nat \<Rightarrow> fault + (bool \<times> memory \<times> byte list)" where
  "ReadBytes input m buf len =
     (if length input < len then Inr (False, m, input)
      else
        (case write_bytes m (fst buf) (snd buf) (take len input) of
           None \<Rightarrow> Inl UndefinedBehaviour
         | Some m' \<Rightarrow> Inr (True, m', drop len input)))"

text \<open>
  Modelled from the spec: \<open>WireFormat::WriteObject\<close> is missing. The spec: it writes a
  byte view as a length-prefixed byte string, the length prefix and then the raw
  bytes, the inverse of what \<open>LoadBody\<close> reads.
\<close>

definition WriteObject :: "byte list \<Rightarrow> memory \<Rightarrow> string_view \<Rightarrow> fault + byte list" where
  "WriteObject output m item =
     (case read_bytes m item of
        None \<Rightarrow> Inl UndefinedBehaviour
      | Some bs \<Rightarrow> Inr (output @ le_encode 8 (sv_size item) @ bs))"

section \<open>Loading and saving\<close>

text \<open>
  \<open>LoadBody\<close> allocates what its input asks for: \<open>items_.reserve(rows)\<close> for the
  declared row count, and the array of a block for a length read from the stream.
  So here these two allocations can be refused. The allocator is the parameter
  \<open>limit\<close> of the call: a request of at most \<open>limit\<close> bytes is served, a
  larger one throws \<open>std::bad_alloc\<close>.
\<close>

text \<open>
  \<open>sizeof(std::string_view)\<close>, \<open>PTRDIFF_MAX\<close> and \<open>items_.max_size()\<close>, on a
  64-bit platform. The standard leaves \<open>max_size()\<close> to the library; the value is
  that of libstdc++, the largest number of elements whose bytes fit a \<open>ptrdiff_t\<close>.
\<close>

definition sizeof_string_view :: nat where
  "sizeof_string_view = 16"

definition PTRDIFF_MAX :: nat where
  "PTRDIFF_MAX = 2 ^ 63 - 1"

definition items_max_size :: nat where
  "items_max_size = PTRDIFF_MAX div sizeof_string_view"

text \<open>
  \<open>items_.reserve(rows)\<close>: \<open>std::length_error\<close> when \<open>rows\<close> exceeds \<open>max_size()\<close>,
  otherwise an allocation of \<open>rows\<close> elements, which can be refused. The result is
  what it throws, if it throws. The capacity of \<open>items_\<close> is not part of the
  model of the column (nothing else depends on it), so \<open>reserve\<close> is taken to
  allocate, as it does in a column that has not held \<open>rows\<close> rows before.
\<close>

definition reserve :: "nat \<Rightarrow> nat \<Rightarrow> fault option" where
  "reserve limit n =
     (if items_max_size < n then Some LengthError
      else if limit < n * sizeof_string_view then Some BadAlloc
      else None)"

text \<open>\<open>blocks_.emplace_back(n)\<close> with an allocator that can refuse.\<close>

definition emplace_block_within ::
  "nat \<Rightarrow> memory \<Rightarrow> ColumnIxJson \<Rightarrow> nat \<Rightarrow> fault + (memory \<times> ColumnIxJson)" where
  "emplace_block_within limit m c n =
     (if limit < n then Inl BadAlloc else Inr (emplace_block m c n))"

text \<open>
  \<open>LoadBody\<close>. The local \<open>block\<close> is assigned at every \<open>emplace_back\<close>, so it points
  to \<open>blocks_.back()\<close> whenever it is read. The result is the memory, the column,
  the rest of the stream and the value returned. An exception has no state here,
  so that \<open>reserve\<close> comes after the two calls of \<open>clear\<close> does not show.
\<close>

function LoadBody_loop ::
  "nat \<Rightarrow> memory \<Rightarrow> ColumnIxJson \<Rightarrow> byte list \<Rightarrow> nat \<Rightarrow> nat
   \<Rightarrow> fault + (memory \<times> ColumnIxJson \<times> byte list \<times> bool)" where
  "LoadBody_loop limit m c input rows i =
     (if i < rows then
        (case ReadUInt64 input of
           None \<Rightarrow> Inr (m, c, input, False)
         | Some (len, input1) \<Rightarrow>
             (case (if length (blocks c) = 0 \<or> len > GetAvailable (last (blocks c))
                    then emplace_block_within limit m c (max DEFAULT_BLOCK_SIZE len)
                    else Inr (m, c)) of
                Inl e \<Rightarrow> Inl e
              | Inr (m1, c1) \<Rightarrow>
                  (case ReadBytes input1 m1 (GetCurrentWritePos (last (blocks c1))) len of
                     Inl e \<Rightarrow> Inl e
                   | Inr (False, m2, input2) \<Rightarrow> Inr (m2, c1, input2, False)
                   | Inr (True, m2, input2) \<Rightarrow>
                       (case ConsumeTailAsStringViewUnsafe (last (blocks c1)) len of
                          (b', v) \<Rightarrow>
                            LoadBody_loop limit m2
                              (c1\<lparr>items := items c1 @ [v], blocks := butlast (blocks c1) @ [b']\<rparr>)
                              input2 rows (Suc i)))))
      else Inr (m, c, input, True))"
  by pat_completeness auto
termination
  by (relation "measure (\<lambda>(limit, m, c, input, rows, i). rows - i)") auto

definition LoadBody ::
  "nat \<Rightarrow> memory \<Rightarrow> ColumnIxJson \<Rightarrow> byte list \<Rightarrow> nat
   \<Rightarrow> fault + (memory \<times> ColumnIxJson \<times> byte list \<times> bool)" where
  "LoadBody limit m c input rows =
     (case reserve limit rows of
        Some e \<Rightarrow> Inl e
      | None \<Rightarrow>
          LoadBody_loop limit (clear_blocks m (blocks c)) (c\<lparr>items := [], blocks := []\<rparr>)
            input rows 0)"

fun SaveBody_loop :: "memory \<Rightarrow> string_view list \<Rightarrow> byte list \<Rightarrow> fault + byte list" where
  "SaveBody_loop m [] output = Inr output"
| "SaveBody_loop m (item # rest) output =
     (case WriteObject output m item of
        Inl e \<Rightarrow> Inl e
      | Inr output' \<Rightarrow> SaveBody_loop m rest output')"

definition SaveBody :: "memory \<Rightarrow> ColumnIxJson \<Rightarrow> byte list \<Rightarrow> fault + byte list" where
  "SaveBody m c output = SaveBody_loop m (items c) output"

section \<open>Slice\<close>

function Slice_loop ::
  "memory \<Rightarrow> string_view list \<Rightarrow> ColumnIxJson \<Rightarrow> nat \<Rightarrow> nat \<Rightarrow> fault + (memory \<times> ColumnIxJson)" where
  "Slice_loop m its result i stop =
     (if i < stop then
        (case Append m result (its ! i) of
           Inl e \<Rightarrow> Inl e
         | Inr (m', result') \<Rightarrow> Slice_loop m' its result' (Suc i) stop)
      else Inr (m, result))"
  by pat_completeness auto
termination
  by (relation "measure (\<lambda>(m, its, result, i, stop). stop - i)") auto

text \<open>The result is the memory and the new column; the source column is \<open>const\<close>.\<close>

definition Slice ::
  "memory \<Rightarrow> ColumnIxJson \<Rightarrow> nat \<Rightarrow> nat \<Rightarrow> fault + (memory \<times> ColumnIxJson)" where
  "Slice m c begin len =
     (if begin < length (items c) then
        (let len' = min len (length (items c) - begin)
         in case emplace_block m ColumnIxJson_ctor (ComputeTotalSize (items c) begin len') of
              (m1, result) \<Rightarrow> Slice_loop m1 (items c) result begin (begin + len'))
      else Inr (m, ColumnIxJson_ctor))"

definition CloneEmpty :: ColumnIxJson where
  "CloneEmpty = ColumnIxJson_ctor"

section \<open>Columns as objects\<close>

text \<open>
  \<open>Append(ColumnRef)\<close> and \<open>Swap(Column&)\<close> take another column object, which may be
  of another class, and which may be the receiver itself. So the column objects
  live in a store too: a \<open>ColumnRef\<close> and a \<open>Column&\<close> are indices into it.
\<close>

datatype column = IxJson ColumnIxJson | OtherColumn

record world =
  mem :: memory
  objs :: "column list"

text \<open>
  Modelled from the spec: \<open>Column::As\<close> is missing. The spec: the downcast of the
  column interface; a bulk append whose argument is not of the same concrete type
  finds no \<open>ColumnIxJson\<close>. A reference outside the store is \<open>None\<close> as well.
\<close>

definition As_ColumnIxJson :: "world \<Rightarrow> nat \<Rightarrow> ColumnIxJson option" where
  "As_ColumnIxJson w r =
     (if r < length (objs w) then
        (case objs w ! r of IxJson c \<Rightarrow> Some c | OtherColumn \<Rightarrow> None)
      else None)"

definition put :: "world \<Rightarrow> nat \<Rightarrow> memory \<Rightarrow> ColumnIxJson \<Rightarrow> world" where
  "put w r m c = w\<lparr>mem := m, objs := (objs w)[r := IxJson c]\<rparr>"

text \<open>
  The loop of \<open>Append(ColumnRef)\<close>: \<open>column->Size()\<close> is read anew at every test.
  It need not end, so it is a partial function: \<open>None\<close> is a run that never returns.
\<close>

partial_function (option) Append_loop ::
  "world \<Rightarrow> nat \<Rightarrow> nat \<Rightarrow> nat \<Rightarrow> (fault + world) option" where
  "Append_loop w this column i =
     (case As_ColumnIxJson w this of
        None \<Rightarrow> Some (Inl UndefinedBehaviour)
      | Some self \<Rightarrow>
          (case As_ColumnIxJson w column of
             None \<Rightarrow> Some (Inl UndefinedBehaviour)
           | Some col \<Rightarrow>
               if i < Size col then
                 (case subscript col i of
                    Inl e \<Rightarrow> Some (Inl e)
                  | Inr v \<Rightarrow>
                      (case AppendUnsafe (mem w) self v of
                         Inl e \<Rightarrow> Some (Inl e)
                       | Inr (m', self') \<Rightarrow> Append_loop (put w this m' self') this column (Suc i)))
               else Some (Inr w)))"

declare Append_loop.simps [code]

definition Append_column :: "world \<Rightarrow> nat \<Rightarrow> nat \<Rightarrow> (fault + world) option" where
  "Append_column w this column =
     (case As_ColumnIxJson w this of
        None \<Rightarrow> Some (Inl UndefinedBehaviour)
      | Some self \<Rightarrow>
          if column < length (objs w) then
            (case As_ColumnIxJson w column of
               None \<Rightarrow> Some (Inr w)
             | Some col \<Rightarrow>
                 (let total_size = ComputeTotalSize (items col) 0 SIZE_MAX
                  in case (if length (blocks self) = 0 \<or> GetAvailable (last (blocks self)) < total_size
                           then emplace_block (mem w) self (max DEFAULT_BLOCK_SIZE total_size)
                           else (mem w, self)) of
                       (m1, self1) \<Rightarrow> Append_loop (put w this m1 self1) this column 0))
          else Some (Inl UndefinedBehaviour))"

text \<open>
  \<open>Swap\<close>: the \<open>dynamic_cast\<close> to a reference throws \<open>std::bad_cast\<close> when \<open>other\<close>
  is of another class; then the three containers are swapped one after the other.
\<close>

definition swap_items :: "world \<Rightarrow> nat \<Rightarrow> nat \<Rightarrow> world" where
  "swap_items w this other =
     (case (As_ColumnIxJson w this, As_ColumnIxJson w other) of
        (Some self, Some col) \<Rightarrow>
          w\<lparr>objs := (objs w)[this := IxJson (self\<lparr>items := items col\<rparr>),
                             other := IxJson (col\<lparr>items := items self\<rparr>)]\<rparr>
      | _ \<Rightarrow> w)"

definition swap_blocks :: "world \<Rightarrow> nat \<Rightarrow> nat \<Rightarrow> world" where
  "swap_blocks w this other =
     (case (As_ColumnIxJson w this, As_ColumnIxJson w other) of
        (Some self, Some col) \<Rightarrow>
          w\<lparr>objs := (objs w)[this := IxJson (self\<lparr>blocks := blocks col\<rparr>),
                             other := IxJson (col\<lparr>blocks := blocks self\<rparr>)]\<rparr>
      | _ \<Rightarrow> w)"

definition swap_append_data :: "world \<Rightarrow> nat \<Rightarrow> nat \<Rightarrow> world" where
  "swap_append_data w this other =
     (case (As_ColumnIxJson w this, As_ColumnIxJson w other) of
        (Some self, Some col) \<Rightarrow>
          w\<lparr>objs := (objs w)[this := IxJson (self\<lparr>append_data := append_data col\<rparr>),
                             other := IxJson (col\<lparr>append_data := append_data self\<rparr>)]\<rparr>
      | _ \<Rightarrow> w)"

definition Swap :: "world \<Rightarrow> nat \<Rightarrow> nat \<Rightarrow> fault + world" where
  "Swap w this other =
     (case As_ColumnIxJson w this of
        None \<Rightarrow> Inl UndefinedBehaviour
      | Some self \<Rightarrow>
          if other < length (objs w) then
            (case As_ColumnIxJson w other of
               None \<Rightarrow> Inl BadCast
             | Some col \<Rightarrow>
                 Inr (swap_append_data (swap_blocks (swap_items w this other) this other) this other))
          else Inl UndefinedBehaviour)"

section \<open>Reading a column, and the calls that append to it\<close>

text \<open>
  The bytes of the view that \<open>At(n)\<close> returns, and the rows of a column read in
  index order.
\<close>

definition row :: "memory \<Rightarrow> ColumnIxJson \<Rightarrow> nat \<Rightarrow> fault + byte list" where
  "row m c n =
     (case At c n of
        Inl e \<Rightarrow> Inl e
      | Inr v \<Rightarrow> (case read_bytes m v of None \<Rightarrow> Inl UndefinedBehaviour | Some bs \<Rightarrow> Inr bs))"

definition contents :: "memory \<Rightarrow> ColumnIxJson \<Rightarrow> (fault + byte list) list" where
  "contents m c = map (row m c) [0 ..< Size c]"

text \<open>
  The four ways to append one value, as calls: the managed copy of a view, of a C
  string (a pointer), the move of a string and the borrowed view.
\<close>

datatype append_call =
  AppendView string_view
| AppendCStr addr nat
| AppendMove "byte list"
| AppendBorrowed string_view

definition do_append ::
  "memory \<Rightarrow> ColumnIxJson \<Rightarrow> append_call \<Rightarrow> fault + (memory \<times> ColumnIxJson)" where
  "do_append m c call =
     (case call of
        AppendView str \<Rightarrow> Append m c str
      | AppendCStr a off \<Rightarrow> Append_cstr m c a off
      | AppendMove steal_value \<Rightarrow> Inr (Append_move m c steal_value)
      | AppendBorrowed str \<Rightarrow> Inr (m, AppendNoManagedLifetime c str))"

fun do_appends ::
  "memory \<Rightarrow> ColumnIxJson \<Rightarrow> append_call list \<Rightarrow> fault + (memory \<times> ColumnIxJson)" where
  "do_appends m c [] = Inr (m, c)"
| "do_appends m c (call # calls) =
     (case do_append m c call of
        Inl e \<Rightarrow> Inl e
      | Inr (m', c') \<Rightarrow> do_appends m' c' calls)"

text \<open>The value a call passes, read in the memory \<open>m\<close>; \<open>None\<close> when it cannot be read.\<close>

definition call_bytes :: "memory \<Rightarrow> append_call \<Rightarrow> byte list option" where
  "call_bytes m call =
     (case call of
        AppendView str \<Rightarrow> read_bytes m str
      | AppendCStr a off \<Rightarrow>
          (case strlen m a off of None \<Rightarrow> None | Some n \<Rightarrow> read_bytes m (StringView a off n))
      | AppendMove steal_value \<Rightarrow> Some steal_value
      | AppendBorrowed str \<Rightarrow> read_bytes m str)"

text \<open>The body of a column on the wire: every row as its length prefix and its bytes.\<close>

definition wire_rows :: "byte list list \<Rightarrow> byte list" where
  "wire_rows strs = concat (map (\<lambda>s. le_encode 8 (length s) @ s) strs)"

text \<open>
  A stream that does not start with a whole row: the length prefix is incomplete,
  or fewer bytes follow it than it announces.
\<close>

definition truncated :: "byte list \<Rightarrow> bool" where
  "truncated input =
     (case ReadUInt64 input of None \<Rightarrow> True | Some (len, input1) \<Rightarrow> length input1 < len)"

section \<open>Well-formed columns\<close>

text \<open>
  A block is in order when it owns a live array of \<open>capacity\<close> cells, has written
  at most that many, and the cells from \<open>size\<close> on are still indeterminate.
\<close>

definition block_ok :: "memory \<Rightarrow> Block \<Rightarrow> bool" where
  "block_ok m b \<longleftrightarrow>
     data b < length m \<and>
     (case m ! data b of
        None \<Rightarrow> False
      | Some buf \<Rightarrow>
          length buf = capacity b \<and> bsize b \<le> capacity b
          \<and> (\<forall>x \<in> set (drop (bsize b) buf). x = None))"

text \<open>
  A column is well formed when its current block (the last one, the only one that
  is written) is in order. What it owns is allocated when the addresses of its
  blocks and of its moved-in strings are addresses of the memory.
\<close>

definition wf :: "memory \<Rightarrow> ColumnIxJson \<Rightarrow> bool" where
  "wf m c \<longleftrightarrow> (blocks c \<noteq> [] \<longrightarrow> block_ok m (last (blocks c)))"

definition allocated :: "memory \<Rightarrow> ColumnIxJson \<Rightarrow> bool" where
  "allocated m c \<longleftrightarrow>
     (\<forall>b \<in> set (blocks c). data b < length m) \<and> (\<forall>a \<in> set (append_data c). a < length m)"


text \<open>
  Every view that can be read in \<open>m\<close> reads the same in \<open>m'\<close>, and no address of
  \<open>m\<close> is free in \<open>m'\<close>.
\<close>

definition preserves :: "memory \<Rightarrow> memory \<Rightarrow> bool" where
  "preserves m m' \<longleftrightarrow>
     length m \<le> length m' \<and> (\<forall>v x. read_bytes m v = Some x \<longrightarrow> read_bytes m' v = Some x)"

text \<open>The views \<open>vs\<close> read as the byte strings \<open>xs\<close>, one by one.\<close>

abbreviation reads :: "memory \<Rightarrow> string_view list \<Rightarrow> byte list list \<Rightarrow> bool" where
  "reads m vs xs \<equiv> list_all2 (\<lambda>v x. read_bytes m v = Some x) vs xs"

section \<open>Memory: what a write leaves alone\<close>

lemma nth_patch:
  assumes "off + length bs \<le> length buf" "j < length buf"
  shows "(take off buf @ map Some bs @ drop (off + length bs) buf) ! j =
         (if off \<le> j \<and> j < off + length bs then Some (bs ! (j - off)) else buf ! j)"
  using assms by (auto simp: nth_append min_def)

lemma read_bytes_iff:
  "read_bytes m v = Some x \<longleftrightarrow>
     sv_data v < length m \<and>
     (\<exists>buf. m ! sv_data v = Some buf \<and> sv_off v + sv_size v \<le> length buf \<and>
            length x = sv_size v \<and> (\<forall>i < sv_size v. buf ! (sv_off v + i) = Some (x ! i)))"
proof (cases "sv_data v < length m")
  case False
  then show ?thesis by (simp add: read_bytes_def)
next
  case True
  show ?thesis
  proof (cases "m ! sv_data v")
    case None
    with True show ?thesis by (simp add: read_bytes_def)
  next
    case (Some buf)
    show ?thesis
    proof (cases "sv_off v + sv_size v \<le> length buf")
      case False
      with True Some show ?thesis by (simp add: read_bytes_def)
    next
      case le: True
      let ?cs = "take (sv_size v) (drop (sv_off v) buf)"
      have len: "length ?cs = sv_size v" using le by simp
      have nth: "\<And>i. i < sv_size v \<Longrightarrow> ?cs ! i = buf ! (sv_off v + i)"
        using le by simp
      have "(None \<notin> set ?cs \<and> map the ?cs = x) \<longleftrightarrow>
            (length x = sv_size v \<and> (\<forall>i < sv_size v. buf ! (sv_off v + i) = Some (x ! i)))"
        (is "?L \<longleftrightarrow> ?R")
      proof
        assume L: ?L
        then have "length x = sv_size v" using len by auto
        moreover have "buf ! (sv_off v + i) = Some (x ! i)" if "i < sv_size v" for i
        proof -
          have "?cs ! i \<in> set ?cs" using that len by (metis nth_mem)
          then have "?cs ! i \<noteq> None" using L by metis
          moreover have "x ! i = the (?cs ! i)" using L that len by (metis nth_map)
          ultimately show ?thesis using nth [OF that] by auto
        qed
        ultimately show ?R by blast
      next
        assume R: ?R
        have "None \<notin> set ?cs"
        proof
          assume "None \<in> set ?cs"
          then obtain i where "i < length ?cs" "?cs ! i = None" by (metis in_set_conv_nth)
          then show False using R nth len by auto
        qed
        moreover have "map the ?cs = x"
          by (rule nth_equalityI) (use R len nth in auto)
        ultimately show ?L by blast
      qed
      with True Some le show ?thesis by (auto simp: read_bytes_def)
    qed
  qed
qed


lemma preserves_refl: "preserves m m"
  by (simp add: preserves_def)

lemma preserves_trans: "preserves m m' \<Longrightarrow> preserves m' m'' \<Longrightarrow> preserves m m''"
  by (auto simp: preserves_def)

lemma preservesD: "preserves m m' \<Longrightarrow> read_bytes m v = Some x \<Longrightarrow> read_bytes m' v = Some x"
  by (simp add: preserves_def)

lemma read_bytes_grow: "sv_data v < length m \<Longrightarrow> read_bytes (m @ ms) v = read_bytes m v"
  by (simp add: read_bytes_def nth_append)

lemma read_bytes_in_range: "read_bytes m v = Some x \<Longrightarrow> sv_data v < length m"
  by (simp add: read_bytes_def split: if_splits)

lemma preserves_grow: "preserves m (m @ ms)"
  unfolding preserves_def
proof (intro conjI allI impI)
  fix v x assume "read_bytes m v = Some x"
  then show "read_bytes (m @ ms) v = Some x"
    using read_bytes_grow [OF read_bytes_in_range] by metis
qed simp

lemma write_bytes_Some:
  assumes "write_bytes m a off bs = Some m'"
  obtains buf where "a < length m" "m ! a = Some buf" "off + length bs \<le> length buf"
    "m' = m[a := Some (take off buf @ map Some bs @ drop (off + length bs) buf)]"
  using assms by (auto simp: write_bytes_def split: if_splits option.splits)

lemma read_bytes_update_other:
  "sv_data v \<noteq> a \<Longrightarrow> read_bytes (m[a := b]) v = read_bytes m v"
  by (simp add: read_bytes_def)

lemma read_bytesI:
  assumes "sv_data v < length m" "m ! sv_data v = Some buf" "sv_off v + sv_size v \<le> length buf"
    "length x = sv_size v" "\<And>i. i < sv_size v \<Longrightarrow> buf ! (sv_off v + i) = Some (x ! i)"
  shows "read_bytes m v = Some x"
  unfolding read_bytes_iff using assms by blast

lemma read_bytesE:
  assumes "read_bytes m v = Some x"
  obtains buf where "sv_data v < length m" "m ! sv_data v = Some buf"
    "sv_off v + sv_size v \<le> length buf" "length x = sv_size v"
    "\<forall>i < sv_size v. buf ! (sv_off v + i) = Some (x ! i)"
  using assms unfolding read_bytes_iff by blast

text \<open>A write to cells that were indeterminate changes no view that could be read.\<close>

lemma preserves_write:
  assumes w: "write_bytes m a off bs = Some m'"
    and buf: "m ! a = Some buf"
    and fresh: "\<And>j. off \<le> j \<Longrightarrow> j < off + length bs \<Longrightarrow> buf ! j = None"
  shows "preserves m m'"
proof -
  let ?buf' = "take off buf @ map Some bs @ drop (off + length bs) buf"
  from w buf have a: "a < length m" and fits: "off + length bs \<le> length buf"
    and m': "m' = m[a := Some ?buf']"
    by (auto elim!: write_bytes_Some)
  have "read_bytes m' v = Some x" if r: "read_bytes m v = Some x" for v x
  proof (cases "sv_data v = a")
    case False
    with r show ?thesis by (simp add: m' read_bytes_update_other)
  next
    case True
    from r obtain buf0 where b0: "m ! sv_data v = Some buf0"
      and in_buf0: "sv_off v + sv_size v \<le> length buf0" and lx: "length x = sv_size v"
      and cells0: "\<forall>i < sv_size v. buf0 ! (sv_off v + i) = Some (x ! i)"
      by (rule read_bytesE) blast
    from b0 True buf have [simp]: "buf0 = buf" by simp
    have cells': "?buf' ! (sv_off v + i) = Some (x ! i)" if i: "i < sv_size v" for i
    proof -
      have "buf ! (sv_off v + i) = Some (x ! i)" using cells0 i by simp
      moreover from this have "\<not> (off \<le> sv_off v + i \<and> sv_off v + i < off + length bs)"
        using fresh [of "sv_off v + i"] by auto
      moreover have "sv_off v + i < length buf" using in_buf0 i by simp
      ultimately show ?thesis using nth_patch [OF fits, of "sv_off v + i"] by auto
    qed
    show ?thesis
    proof (rule read_bytesI [where buf = ?buf'])
      show "sv_data v < length m'" using True a by (simp add: m')
      show "m' ! sv_data v = Some ?buf'" using True a by (simp add: m')
      show "sv_off v + sv_size v \<le> length ?buf'" using in_buf0 fits by simp
      show "length x = sv_size v" by (rule lx)
      show "\<And>i. i < sv_size v \<Longrightarrow> ?buf' ! (sv_off v + i) = Some (x ! i)" by (rule cells')
    qed
  qed
  moreover have "length m \<le> length m'" by (simp add: m')
  ultimately show ?thesis by (simp add: preserves_def)
qed

lemma read_after_write:
  assumes "write_bytes m a off bs = Some m'"
  shows "read_bytes m' (StringView a off (length bs)) = Some bs"
proof -
  from assms obtain buf where a: "a < length m" and fits: "off + length bs \<le> length buf"
    and m': "m' = m[a := Some (take off buf @ map Some bs @ drop (off + length bs) buf)]"
    by (auto elim!: write_bytes_Some)
  show ?thesis
  proof (rule read_bytesI)
    show "sv_data (StringView a off (length bs)) < length m'" using a by (simp add: m')
    show "m' ! sv_data (StringView a off (length bs))
          = Some (take off buf @ map Some bs @ drop (off + length bs) buf)"
      using a by (simp add: m')
    show "\<And>i. i < sv_size (StringView a off (length bs)) \<Longrightarrow>
          (take off buf @ map Some bs @ drop (off + length bs) buf)
            ! (sv_off (StringView a off (length bs)) + i) = Some (bs ! i)"
      using fits by (simp add: nth_patch)
  qed (use fits in simp_all)
qed

lemma block_ok_tail:
  assumes "block_ok m b" "m ! data b = Some buf" "bsize b \<le> j" "j < capacity b"
  shows "buf ! j = None"
proof -
  from assms have len: "length buf = capacity b" and t: "\<forall>x \<in> set (drop (bsize b) buf). x = None"
    by (auto simp: block_ok_def)
  have "drop (bsize b) buf ! (j - bsize b) \<in> set (drop (bsize b) buf)"
    using assms len by (intro nth_mem) simp
  moreover have "drop (bsize b) buf ! (j - bsize b) = buf ! j"
    using assms len by simp
  ultimately show ?thesis using t by metis
qed

lemma block_write_ok:
  assumes ok: "block_ok m b" and room: "bsize b + length bs \<le> capacity b"
  obtains m' where "write_bytes m (data b) (bsize b) bs = Some m'"
    "block_ok m' (b\<lparr>bsize := bsize b + length bs\<rparr>)"
    "preserves m m'" "length m' = length m"
    "read_bytes m' (StringView (data b) (bsize b) (length bs)) = Some bs"
proof -
  from ok obtain buf where a: "data b < length m" and buf: "m ! data b = Some buf"
    and len: "length buf = capacity b" and le: "bsize b \<le> capacity b"
    and tail: "\<forall>x \<in> set (drop (bsize b) buf). x = None"
    by (auto simp: block_ok_def split: option.splits)
  let ?buf' = "take (bsize b) buf @ map Some bs @ drop (bsize b + length bs) buf"
  let ?m' = "m[data b := Some ?buf']"
  have w: "write_bytes m (data b) (bsize b) bs = Some ?m'"
    using a buf len room by (simp add: write_bytes_def)
  have "drop (bsize b + length bs) ?buf' = drop (bsize b + length bs) buf"
    using len room le by simp
  moreover have "\<forall>x \<in> set (drop (bsize b + length bs) buf). x = None"
    using tail set_drop_subset_set_drop [of "bsize b" "bsize b + length bs" buf] by auto
  ultimately have 2: "block_ok ?m' (b\<lparr>bsize := bsize b + length bs\<rparr>)"
    using a len room by (simp add: block_ok_def)
  have "buf ! j = None" if "bsize b \<le> j" "j < bsize b + length bs" for j
    using block_ok_tail [OF ok buf, of j] room that by simp
  then have 3: "preserves m ?m'" by (rule preserves_write [OF w buf])
  have 4: "read_bytes ?m' (StringView (data b) (bsize b) (length bs)) = Some bs"
    using read_after_write [OF w] by simp
  show ?thesis using that [OF w 2 3 _ 4] by simp
qed

section \<open>Appending one value\<close>

lemma row_in_range:
  "n < length (items c) \<Longrightarrow>
   row m c n = (case read_bytes m (items c ! n) of None \<Rightarrow> Inl UndefinedBehaviour | Some bs \<Rightarrow> Inr bs)"
  by (simp add: row_def At_def)

lemma contents_iff: "contents m c = map Inr xs \<longleftrightarrow> reads m (items c) xs"
proof
  assume L: "contents m c = map Inr xs"
  then have len: "length xs = length (items c)"
    by (metis Size_def length_map length_upt minus_nat.diff_0 contents_def)
  have "read_bytes m (items c ! n) = Some (xs ! n)" if n: "n < length (items c)" for n
  proof -
    have "contents m c ! n = Inr (xs ! n)" using L n len by simp
    then have "row m c n = Inr (xs ! n)" using n by (simp add: contents_def Size_def)
    then show ?thesis using n by (simp add: row_in_range split: option.splits)
  qed
  with len show "reads m (items c) xs" by (simp add: list_all2_conv_all_nth)
next
  assume R: "reads m (items c) xs"
  then have len: "length (items c) = length xs" by (rule list_all2_lengthD)
  show "contents m c = map Inr xs"
  proof (rule nth_equalityI)
    show "length (contents m c) = length (map Inr xs)" using len by (simp add: contents_def Size_def)
  next
    fix n assume "n < length (contents m c)"
    then have n: "n < length (items c)" by (simp add: contents_def Size_def)
    then have "read_bytes m (items c ! n) = Some (xs ! n)" using R by (simp add: list_all2_conv_all_nth)
    then show "contents m c ! n = map Inr xs ! n" using n len by (simp add: contents_def Size_def row_in_range)
  qed
qed

lemma reads_preserved: "preserves m m' \<Longrightarrow> reads m vs xs \<Longrightarrow> reads m' vs xs"
  by (erule list_all2_mono) (simp add: preservesD)

lemma emplace_block_eq:
  "emplace_block m c n =
     (m @ [Some (replicate n None)],
      c\<lparr>blocks := blocks c @ [\<lparr>bsize = 0, capacity = n, data = length m\<rparr>]\<rparr>)"
  by (simp add: emplace_block_def Block_ctor_def new_array_def)

lemma block_ok_new:
  "block_ok (m @ [Some (replicate n None)]) \<lparr>bsize = 0, capacity = n, data = length m\<rparr>"
  by (simp add: block_ok_def)

lemma wf_emplace_block:
  "wf (m @ [Some (replicate n None)])
      (c\<lparr>blocks := blocks c @ [\<lparr>bsize = 0, capacity = n, data = length m\<rparr>]\<rparr>)"
  using block_ok_new [of m n] by (simp add: wf_def)

lemma wf_ctor: "wf m ColumnIxJson_ctor"
  by (simp add: wf_def ColumnIxJson_ctor_def)

lemma wf_last_block:
  assumes "wf m c" "blocks c \<noteq> []"
  shows "block_ok m (last (blocks c))" "bsize (last (blocks c)) \<le> capacity (last (blocks c))"
  using assms by (auto simp: wf_def block_ok_def split: option.splits)

lemma GetAvailable_ok: "bsize b \<le> capacity b \<Longrightarrow> GetAvailable b = capacity b - bsize b"
  by (simp add: GetAvailable_def size_t_minus_def)

lemma column_write_ok:
  assumes wf: "wf m c" and ne: "blocks c \<noteq> []"
    and room: "bsize (last (blocks c)) + length bs \<le> capacity (last (blocks c))"
  obtains m' where
    "write_bytes m (data (last (blocks c))) (bsize (last (blocks c))) bs = Some m'"
    "wf m' (c\<lparr>items := items c @ [StringView (data (last (blocks c))) (bsize (last (blocks c))) (length bs)],
               blocks := butlast (blocks c) @ [(last (blocks c))\<lparr>bsize := bsize (last (blocks c)) + length bs\<rparr>]\<rparr>)"
    "preserves m m'" "length m' = length m"
    "read_bytes m' (StringView (data (last (blocks c))) (bsize (last (blocks c))) (length bs)) = Some bs"
proof -
  let ?b = "last (blocks c)"
  from wf ne have ok: "block_ok m ?b" by (rule wf_last_block)
  from ok room obtain m' where
    1: "write_bytes m (data ?b) (bsize ?b) bs = Some m'"
    and 2: "block_ok m' (?b\<lparr>bsize := bsize ?b + length bs\<rparr>)"
    and 3: "preserves m m'" and 4: "length m' = length m"
    and 5: "read_bytes m' (StringView (data ?b) (bsize ?b) (length bs)) = Some bs"
    by (rule block_write_ok)
  have B: "wf m' (c\<lparr>items := items c @ [StringView (data ?b) (bsize ?b) (length bs)],
                  blocks := butlast (blocks c) @ [?b\<lparr>bsize := bsize ?b + length bs\<rparr>]\<rparr>)"
    using 2 by (simp add: wf_def)
  show ?thesis using that [OF 1 B 3 4 5] .
qed

text \<open>The test before a copy: after it the current block has room.\<close>

lemma make_room:
  assumes wf: "wf m c"
    and eq: "(if length (blocks c) = 0 \<or> GetAvailable (last (blocks c)) < n
              then emplace_block m c (max DEFAULT_BLOCK_SIZE n) else (m, c)) = (m1, c1)"
  shows "wf m1 c1" "blocks c1 \<noteq> []"
    "bsize (last (blocks c1)) + n \<le> capacity (last (blocks c1))"
    "preserves m m1" "items c1 = items c" "append_data c1 = append_data c"
proof -
  have "wf m1 c1 \<and> blocks c1 \<noteq> [] \<and> bsize (last (blocks c1)) + n \<le> capacity (last (blocks c1))
        \<and> preserves m m1 \<and> items c1 = items c \<and> append_data c1 = append_data c"
  proof (cases "length (blocks c) = 0 \<or> GetAvailable (last (blocks c)) < n")
    case True
    with eq have "m1 = m @ [Some (replicate (max DEFAULT_BLOCK_SIZE n) None)]"
      and "c1 = c\<lparr>blocks := blocks c @ [\<lparr>bsize = 0, capacity = max DEFAULT_BLOCK_SIZE n, data = length m\<rparr>]\<rparr>"
      by (simp_all add: emplace_block_eq)
    then show ?thesis using wf_emplace_block preserves_grow by simp
  next
    case False
    with eq have [simp]: "m1 = m" "c1 = c" by simp_all
    from False have ne: "blocks c \<noteq> []" and av: "n \<le> GetAvailable (last (blocks c))" by auto
    have "bsize (last (blocks c)) \<le> capacity (last (blocks c))" using wf ne by (rule wf_last_block)
    with av have "bsize (last (blocks c)) + n \<le> capacity (last (blocks c))"
      by (simp add: GetAvailable_ok)
    then show ?thesis using wf ne preserves_refl by simp
  qed
  then show "wf m1 c1" "blocks c1 \<noteq> []"
    "bsize (last (blocks c1)) + n \<le> capacity (last (blocks c1))"
    "preserves m m1" "items c1 = items c" "append_data c1 = append_data c"
    by simp_all
qed

text \<open>\<open>AppendUnsafe\<close> on a well-formed column whose current block has room.\<close>

lemma AppendUnsafe_ok:
  assumes wf: "wf m c" and ne: "blocks c \<noteq> []" and r: "read_bytes m str = Some bs"
    and room: "bsize (last (blocks c)) + sv_size str \<le> capacity (last (blocks c))"
  obtains m' where
    "AppendUnsafe m c str =
       Inr (m', c\<lparr>items := items c @ [StringView (data (last (blocks c))) (bsize (last (blocks c))) (sv_size str)],
                  blocks := butlast (blocks c) @ [(last (blocks c))\<lparr>bsize := bsize (last (blocks c)) + sv_size str\<rparr>]\<rparr>)"
    "wf m' (c\<lparr>items := items c @ [StringView (data (last (blocks c))) (bsize (last (blocks c))) (sv_size str)],
                  blocks := butlast (blocks c) @ [(last (blocks c))\<lparr>bsize := bsize (last (blocks c)) + sv_size str\<rparr>]\<rparr>)"
    "preserves m m'" "length m' = length m"
    "read_bytes m' (StringView (data (last (blocks c))) (bsize (last (blocks c))) (sv_size str)) = Some bs"
proof -
  let ?b = "last (blocks c)"
  from r have n: "length bs = sv_size str" by (auto simp: read_bytes_iff)
  with room have room': "bsize ?b + length bs \<le> capacity ?b" by simp
  from wf ne room' obtain m' where
    1: "write_bytes m (data ?b) (bsize ?b) bs = Some m'"
    and 2: "wf m' (c\<lparr>items := items c @ [StringView (data ?b) (bsize ?b) (length bs)],
               blocks := butlast (blocks c) @ [?b\<lparr>bsize := bsize ?b + length bs\<rparr>]\<rparr>)"
    and 3: "preserves m m'" and 4: "length m' = length m"
    and 5: "read_bytes m' (StringView (data ?b) (bsize ?b) (length bs)) = Some bs"
    by (rule column_write_ok)
  have A: "AppendUnsafe m c str =
       Inr (m', c\<lparr>items := items c @ [StringView (data ?b) (bsize ?b) (sv_size str)],
                  blocks := butlast (blocks c) @ [?b\<lparr>bsize := bsize ?b + sv_size str\<rparr>]\<rparr>)"
    using ne r 1 by (simp add: AppendUnsafe_def Block_AppendUnsafe_def)
  show ?thesis using that [OF A _ 3 4] 2 5 by (simp add: n)
qed

text \<open>The managed copy on a well-formed column, of a view that can be read.\<close>

lemma Append_ok:
  assumes wf: "wf m c" and r: "read_bytes m str = Some bs"
  obtains m' c' v where "Append m c str = Inr (m', c')" "wf m' c'" "preserves m m'"
    "items c' = items c @ [v]" "read_bytes m' v = Some bs" "append_data c' = append_data c"
proof -
  obtain m1 c1 where eq: "(if length (blocks c) = 0 \<or> GetAvailable (last (blocks c)) < sv_size str
              then emplace_block m c (max DEFAULT_BLOCK_SIZE (sv_size str)) else (m, c)) = (m1, c1)"
    by (metis surj_pair)
  note room = make_room [OF wf eq]
  have r1: "read_bytes m1 str = Some bs" using room(4) r by (rule preservesD)
  let ?v = "StringView (data (last (blocks c1))) (bsize (last (blocks c1))) (sv_size str)"
  let ?c' = "c1\<lparr>items := items c1 @ [?v],
                 blocks := butlast (blocks c1) @ [(last (blocks c1))\<lparr>bsize := bsize (last (blocks c1)) + sv_size str\<rparr>]\<rparr>"
  from room(1,2) r1 room(3) obtain m' where
    A: "AppendUnsafe m1 c1 str = Inr (m', ?c')"
    and B: "wf m' ?c'" and C: "preserves m1 m'" and E: "read_bytes m' ?v = Some bs"
    by (rule AppendUnsafe_ok)
  have "Append m c str = Inr (m', ?c')"
    by (simp only: Append_def eq prod.case A)
  moreover have "preserves m m'" using room(4) C by (rule preserves_trans)
  ultimately show ?thesis using that [of m' ?c' ?v] B E room(5,6) by simp
qed

section \<open>Sizes and the wire format\<close>

lemma fold_sizes:
  "b + n \<le> length xs \<Longrightarrow> acc + sum_list (map sv_size (take n (drop b xs))) < 2 ^ 64 \<Longrightarrow>
   fold (\<lambda>i result. (result + sv_size (xs ! i)) mod 2 ^ 64) [b ..< b + n] acc
     = acc + sum_list (map sv_size (take n (drop b xs)))"
proof (induction n arbitrary: acc)
  case 0
  then show ?case by simp
next
  case (Suc n)
  then have step: "take (Suc n) (drop b xs) = take n (drop b xs) @ [xs ! (b + n)]"
    by (simp add: take_Suc_conv_app_nth)
  with Suc.prems have "acc + sum_list (map sv_size (take n (drop b xs))) < 2 ^ 64" by simp
  with Suc have "fold (\<lambda>i result. (result + sv_size (xs ! i)) mod 2 ^ 64) [b ..< b + n] acc
     = acc + sum_list (map sv_size (take n (drop b xs)))"
    by simp
  with Suc.prems step show ?case by simp
qed

lemma ComputeTotalSize_eq:
  assumes "sum_list (map sv_size (take len (drop begin strings))) < 2 ^ 64"
  shows "ComputeTotalSize strings begin len = sum_list (map sv_size (take len (drop begin strings)))"
proof (cases "begin < length strings")
  case True
  let ?n = "min len (length strings - begin)"
  have eq: "take ?n (drop begin strings) = take len (drop begin strings)"
    by (simp add: min_def)
  moreover have "begin + ?n \<le> length strings" using True by simp
  moreover have "0 + sum_list (map sv_size (take ?n (drop begin strings))) < 2 ^ 64"
    using assms eq by simp
  ultimately show ?thesis
    using True fold_sizes [of "begin" ?n strings 0] by (simp add: ComputeTotalSize_def Let_def)
next
  case False
  then show ?thesis by (simp add: ComputeTotalSize_def)
qed

lemma ComputeTotalSize_all:
  "length strings \<le> SIZE_MAX \<Longrightarrow> sum_list (map sv_size strings) < 2 ^ 64 \<Longrightarrow>
   ComputeTotalSize strings 0 SIZE_MAX = sum_list (map sv_size strings)"
  by (simp add: ComputeTotalSize_eq)

lemma sum_list_take_drop_le:
  "sum_list (map f (take n (drop b xs))) \<le> (sum_list (map f xs) :: nat)"
proof -
  have "sum_list (map f (take n (drop b xs))) \<le> sum_list (map f (drop b xs))"
    by (metis append_take_drop_id le_add1 map_append sum_list_append)
  also have "\<dots> \<le> sum_list (map f xs)"
    by (metis append_take_drop_id le_add2 map_append sum_list_append)
  finally show ?thesis .
qed

lemma reads_sizes: "reads m vs xs \<Longrightarrow> map sv_size vs = map length xs"
  by (induction vs xs rule: list_all2_induct) (auto simp: read_bytes_iff)

lemma le_decode_encode: "n < 256 ^ k \<Longrightarrow> le_decode (le_encode k n) = n"
proof (induction k arbitrary: n)
  case 0
  then show ?case by simp
next
  case (Suc k)
  then have "n div 256 < 256 ^ k" by (simp add: less_mult_imp_div_less mult.commute)
  with Suc.IH have "le_decode (le_encode k (n div 256)) = n div 256" by blast
  then show ?case by simp
qed

lemma length_le_encode [simp]: "length (le_encode k n) = k"
  by (induction k arbitrary: n) auto

lemma ReadUInt64_prefix:
  "n < 2 ^ 64 \<Longrightarrow> ReadUInt64 (le_encode 8 n @ rest) = Some (n, rest)"
  using le_decode_encode [of n 8] by (simp add: ReadUInt64_def)


lemma LoadBody_loop_row:
  assumes wf: "wf m c" and s: "length s < 2 ^ 64"
    and fits: "blocks c = [] \<or> GetAvailable (last (blocks c)) < length s
               \<Longrightarrow> max DEFAULT_BLOCK_SIZE (length s) \<le> limit"
  obtains m' c' v where
    "\<forall>rest rows. i < rows \<longrightarrow>
       LoadBody_loop limit m c (le_encode 8 (length s) @ s @ rest) rows i
       = LoadBody_loop limit m' c' rest rows (Suc i)"
    "wf m' c'" "preserves m m'" "items c' = items c @ [v]" "read_bytes m' v = Some s"
    "append_data c' = append_data c"
    "blocks c = [] \<or> GetAvailable (last (blocks c)) \<le> DEFAULT_BLOCK_SIZE
     \<longrightarrow> blocks c' \<noteq> [] \<and> GetAvailable (last (blocks c')) \<le> DEFAULT_BLOCK_SIZE"
    "blocks c' \<noteq> []"
proof -
  obtain m1 c1 where eq: "(if length (blocks c) = 0 \<or> GetAvailable (last (blocks c)) < length s
              then emplace_block m c (max DEFAULT_BLOCK_SIZE (length s)) else (m, c)) = (m1, c1)"
    by (metis surj_pair)
  have eq': "(if length (blocks c) = 0 \<or> GetAvailable (last (blocks c)) < length s
              then emplace_block_within limit m c (max DEFAULT_BLOCK_SIZE (length s))
              else Inr (m, c)) = Inr (m1, c1)"
  proof (cases "length (blocks c) = 0 \<or> GetAvailable (last (blocks c)) < length s")
    case True
    then have "\<not> limit < max DEFAULT_BLOCK_SIZE (length s)" using fits by auto
    then show ?thesis using True eq by (simp only: emplace_block_within_def if_True if_False)
  next
    case False
    then show ?thesis using eq by simp
  qed
  note r = make_room [OF wf eq]
  let ?b = "last (blocks c1)"
  let ?v = "StringView (data ?b) (bsize ?b) (length s)"
  let ?c' = "c1\<lparr>items := items c1 @ [?v], blocks := butlast (blocks c1) @ [?b\<lparr>bsize := bsize ?b + length s\<rparr>]\<rparr>"
  from r(1,2,3) obtain m' where
    w: "write_bytes m1 (data ?b) (bsize ?b) s = Some m'"
    and wf': "wf m' ?c'" and p: "preserves m1 m'" and rd: "read_bytes m' ?v = Some s"
    by (rule column_write_ok)
  have step: "LoadBody_loop limit m c (le_encode 8 (length s) @ s @ rest) rows i
              = LoadBody_loop limit m' ?c' rest rows (Suc i)" if i: "i < rows" for rest rows
  proof -
    have rb: "ReadBytes (s @ rest) m1 (GetCurrentWritePos ?b) (length s) = Inr (True, m', rest)"
      using w by (simp add: ReadBytes_def GetCurrentWritePos_def)
    show ?thesis
      apply (subst LoadBody_loop.simps)
      apply (simp only: i if_True ReadUInt64_prefix [OF s] option.case prod.case)
      apply (simp only: eq' prod.case rb sum.case bool.case
          ConsumeTailAsStringViewUnsafe_def)
      done
  qed
  have "preserves m m'" using r(4) p by (rule preserves_trans)
  moreover have "\<forall>rest rows. i < rows \<longrightarrow>
       LoadBody_loop limit m c (le_encode 8 (length s) @ s @ rest) rows i
       = LoadBody_loop limit m' ?c' rest rows (Suc i)"
    using step by blast
  moreover have "blocks ?c' \<noteq> [] \<and> GetAvailable (last (blocks ?c')) \<le> DEFAULT_BLOCK_SIZE"
    if small: "blocks c = [] \<or> GetAvailable (last (blocks c)) \<le> DEFAULT_BLOCK_SIZE"
  proof -
    have av: "GetAvailable (last (blocks ?c')) = capacity ?b - (bsize ?b + length s)"
      using r(3) by (simp add: GetAvailable_ok)
    have "capacity ?b - (bsize ?b + length s) \<le> DEFAULT_BLOCK_SIZE"
    proof (cases "length (blocks c) = 0 \<or> GetAvailable (last (blocks c)) < length s")
      case True
      with eq have "?b = \<lparr>bsize = 0, capacity = max DEFAULT_BLOCK_SIZE (length s), data = length m\<rparr>"
        by (auto simp: emplace_block_eq)
      then show ?thesis by simp
    next
      case False
      with eq have c1: "c1 = c" by simp
      from False have ne: "blocks c \<noteq> []" by simp
      have "GetAvailable (last (blocks c)) = capacity (last (blocks c)) - bsize (last (blocks c))"
        using wf_last_block(2) [OF wf ne] by (rule GetAvailable_ok)
      then show ?thesis using small ne c1 by simp
    qed
    with av show ?thesis by simp
  qed
  moreover have "blocks ?c' \<noteq> []" by simp
  ultimately show ?thesis using that [of m' ?c' ?v] wf' rd r(5,6) by simp
qed

lemma wire_rows_Cons: "wire_rows (s # strs) = le_encode 8 (length s) @ s @ wire_rows strs"
  by (simp add: wire_rows_def)

lemma wire_rows_Nil: "wire_rows [] = []"
  by (simp add: wire_rows_def)

text \<open>
  The loop of \<open>LoadBody\<close> on a stream that starts with whole rows, when the
  allocator serves every block. The state it reaches does not depend on what
  follows the rows.
\<close>

lemma LoadBody_loop_rows:
  assumes "wf m c" "\<forall>s \<in> set strs. length s < 2 ^ 64"
    and "DEFAULT_BLOCK_SIZE \<le> limit" "\<forall>s \<in> set strs. length s \<le> limit"
  obtains m' c' vs where
    "\<forall>rest n. i + length strs \<le> n \<longrightarrow>
       LoadBody_loop limit m c (wire_rows strs @ rest) n i
       = LoadBody_loop limit m' c' rest n (i + length strs)"
    "wf m' c'" "preserves m m'" "items c' = items c @ vs" "reads m' vs strs"
    "append_data c' = append_data c"
    "blocks c = [] \<or> GetAvailable (last (blocks c)) \<le> DEFAULT_BLOCK_SIZE
     \<longrightarrow> blocks c' = [] \<or> GetAvailable (last (blocks c')) \<le> DEFAULT_BLOCK_SIZE"
    "blocks c \<noteq> [] \<or> strs \<noteq> [] \<longrightarrow> blocks c' \<noteq> []"
proof -
  have "\<exists>m' c' vs.
      (\<forall>rest n. i + length strs \<le> n \<longrightarrow>
         LoadBody_loop limit m c (wire_rows strs @ rest) n i
         = LoadBody_loop limit m' c' rest n (i + length strs))
      \<and> wf m' c' \<and> preserves m m' \<and> items c' = items c @ vs \<and> reads m' vs strs
      \<and> append_data c' = append_data c
      \<and> (blocks c = [] \<or> GetAvailable (last (blocks c)) \<le> DEFAULT_BLOCK_SIZE
         \<longrightarrow> blocks c' = [] \<or> GetAvailable (last (blocks c')) \<le> DEFAULT_BLOCK_SIZE)
      \<and> (blocks c \<noteq> [] \<or> strs \<noteq> [] \<longrightarrow> blocks c' \<noteq> [])"
    using assms(1,2,4)
  proof (induction strs arbitrary: m c i)
    case Nil
    then show ?case using preserves_refl by (auto simp: wire_rows_Nil)
  next
    case (Cons s strs)
    from Cons.prems have s: "length s < 2 ^ 64" and fits: "max DEFAULT_BLOCK_SIZE (length s) \<le> limit"
      using assms(3) by simp_all
    obtain m1 c1 v where
      1: "\<forall>rest rows. i < rows \<longrightarrow>
            LoadBody_loop limit m c (le_encode 8 (length s) @ s @ rest) rows i
            = LoadBody_loop limit m1 c1 rest rows (Suc i)"
      and wf1: "wf m1 c1" and p1: "preserves m m1" and it1: "items c1 = items c @ [v]"
      and r1: "read_bytes m1 v = Some s" and ad1: "append_data c1 = append_data c"
      and sm1: "blocks c = [] \<or> GetAvailable (last (blocks c)) \<le> DEFAULT_BLOCK_SIZE
                \<longrightarrow> blocks c1 \<noteq> [] \<and> GetAvailable (last (blocks c1)) \<le> DEFAULT_BLOCK_SIZE"
      and ne1: "blocks c1 \<noteq> []"
      by (rule LoadBody_loop_row [where i = i, OF Cons.prems(1) s fits])
    from Cons.prems have "\<forall>s \<in> set strs. length s < 2 ^ 64" "\<forall>s \<in> set strs. length s \<le> limit"
      by simp_all
    from Cons.IH [OF wf1 this, of "Suc i"] obtain m' c' vs where
      2: "\<forall>rest n. Suc i + length strs \<le> n \<longrightarrow>
            LoadBody_loop limit m1 c1 (wire_rows strs @ rest) n (Suc i)
            = LoadBody_loop limit m' c' rest n (Suc i + length strs)"
      and wf': "wf m' c'" and p': "preserves m1 m'" and it': "items c' = items c1 @ vs"
      and r': "reads m' vs strs" and ad': "append_data c' = append_data c1"
      and sm': "blocks c1 = [] \<or> GetAvailable (last (blocks c1)) \<le> DEFAULT_BLOCK_SIZE
                \<longrightarrow> blocks c' = [] \<or> GetAvailable (last (blocks c')) \<le> DEFAULT_BLOCK_SIZE"
      and ne': "blocks c1 \<noteq> [] \<or> strs \<noteq> [] \<longrightarrow> blocks c' \<noteq> []"
      by blast
    have step: "\<forall>rest n. i + length (s # strs) \<le> n \<longrightarrow>
          LoadBody_loop limit m c (wire_rows (s # strs) @ rest) n i
          = LoadBody_loop limit m' c' rest n (i + length (s # strs))"
    proof (intro allI impI)
      fix rest n
      assume "i + length (s # strs) \<le> n"
      then have "i < n" "Suc i + length strs \<le> n" by simp_all
      then show "LoadBody_loop limit m c (wire_rows (s # strs) @ rest) n i
          = LoadBody_loop limit m' c' rest n (i + length (s # strs))"
        using 1 [rule_format, of n "wire_rows strs @ rest"] 2 [rule_format, of n rest]
        by (simp add: wire_rows_Cons)
    qed
    have pm: "preserves m m'" using p1 p' by (rule preserves_trans)
    have its: "items c' = items c @ (v # vs)" using it1 it' by simp
    have rds: "reads m' (v # vs) (s # strs)" using r' preservesD [OF p' r1] by simp
    have sm: "blocks c = [] \<or> GetAvailable (last (blocks c)) \<le> DEFAULT_BLOCK_SIZE
              \<longrightarrow> blocks c' = [] \<or> GetAvailable (last (blocks c')) \<le> DEFAULT_BLOCK_SIZE"
      using sm1 sm' by blast
    show ?case
      apply (intro exI [of _ m'] exI [of _ c'] exI [of _ "v # vs"] conjI)
             apply (rule step)
            apply (rule wf')
           apply (rule pm)
          apply (rule its)
         apply (rule rds)
        apply (simp add: ad1 ad')
       apply (rule sm)
      apply (simp add: ne1 ne')
      done
  qed
  then show ?thesis using that by blast
qed

lemma LoadBody_loop_done: "LoadBody_loop limit m c input n n = Inr (m, c, input, True)"
  by (subst LoadBody_loop.simps) simp





lemma SaveBody_loop_rows:
  "reads m vs strs \<Longrightarrow> SaveBody_loop m vs out = Inr (out @ wire_rows strs)"
proof (induction vs strs arbitrary: out rule: list_all2_induct)
  case Nil
  then show ?case by (simp add: wire_rows_Nil)
next
  case (Cons v vs s strs)
  then have "sv_size v = length s" by (auto simp: read_bytes_iff)
  with Cons show ?case by (simp add: WriteObject_def wire_rows_Cons)
qed

lemma of_char_less_256: "(of_char b :: nat) < 256"
proof -
  have "(of_char b :: nat) mod 256 = of_char b" by (rule of_char_mod_256)
  then show ?thesis by (metis mod_less_divisor zero_less_numeral)
qed

lemma le_encode_decode: "length bs = k \<Longrightarrow> le_encode k (le_decode bs) = bs"
proof (induction bs arbitrary: k)
  case Nil
  then show ?case by simp
next
  case (Cons b bs)
  then obtain k' where k: "k = Suc k'" and len: "length bs = k'" by (cases k) auto
  have "(of_char b + 256 * le_decode bs) mod 256 = (of_char b :: nat)"
    using of_char_less_256 [of b] by simp
  moreover have "(of_char b + 256 * le_decode bs) div 256 = le_decode bs"
    using of_char_less_256 [of b] by simp
  ultimately show ?case using Cons.IH [OF len] k by simp
qed

lemma le_decode_less: "le_decode bs < 256 ^ length bs"
proof (induction bs)
  case Nil
  then show ?case by simp
next
  case (Cons b bs)
  have "of_char b + 256 * le_decode bs < 256 + 256 * le_decode bs"
    using of_char_less_256 [of b] by simp
  also have "\<dots> = 256 * Suc (le_decode bs)" by simp
  also have "\<dots> \<le> 256 * 256 ^ length bs" using Cons by (simp add: Suc_leI)
  finally show ?case by simp
qed

text \<open>
  Every stream is some whole rows followed by a rest: it holds \<open>n\<close> whole rows, or
  fewer, followed by a rest that does not start with a whole row.
\<close>

lemma stream_shape:
  "\<exists>strs rest. input = wire_rows strs @ rest \<and> (\<forall>s \<in> set strs. length s < 2 ^ 64) \<and>
     (length strs = n \<or> length strs < n \<and> truncated rest)"
proof (induction n arbitrary: input)
  case 0
  show ?case by (rule exI [of _ "[]"]) (simp add: wire_rows_Nil)
next
  case (Suc n)
  show ?case
  proof (cases "truncated input")
    case True
    then show ?thesis by (intro exI [of _ "[]"] exI [of _ input]) (simp add: wire_rows_Nil)
  next
    case False
    then have len8: "8 \<le> length input" and fits: "le_decode (take 8 input) \<le> length (drop 8 input)"
      by (auto simp: truncated_def ReadUInt64_def split: if_splits)
    let ?len = "le_decode (take 8 input)"
    let ?s = "take ?len (drop 8 input)"
    let ?rest = "drop ?len (drop 8 input)"
    have ls: "length ?s = ?len" using fits by simp
    have "le_encode 8 ?len = take 8 input" using len8 by (intro le_encode_decode) simp
    moreover have "input = take 8 input @ (?s @ ?rest)"
      by (simp only: append_take_drop_id)
    ultimately have input: "input = le_encode 8 (length ?s) @ ?s @ ?rest" using ls by simp
    have "?len < 256 ^ length (take 8 input)" by (rule le_decode_less)
    then have bound: "length ?s < 2 ^ 64" using ls len8 by simp
    from Suc [of ?rest] obtain strs rest where
      "?rest = wire_rows strs @ rest" "\<forall>s \<in> set strs. length s < 2 ^ 64"
      "length strs = n \<or> length strs < n \<and> truncated rest"
      by blast
    then show ?thesis using input bound
      by (intro exI [of _ "?s # strs"] exI [of _ rest]) (auto simp: wire_rows_Cons)
  qed
qed

lemma clear_blocks_length [simp]: "length (clear_blocks m bs) = length m"
  unfolding clear_blocks_def by (induction bs arbitrary: m) (simp_all add: delete_array_def)

lemma clear_strings_length [simp]: "length (clear_strings m as) = length m"
  unfolding clear_strings_def by (induction as arbitrary: m) (simp_all add: delete_array_def)

lemma wf_reset: "wf m (c\<lparr>items := [], blocks := []\<rparr>)"
  by (simp add: wf_def)

section \<open>The calls that append\<close>

lemma block_ok_grow: "block_ok m b \<Longrightarrow> block_ok (m @ ms) b"
  by (auto simp: block_ok_def nth_append)

lemma wf_grow: "wf m c \<Longrightarrow> wf (m @ ms) c"
  by (simp add: wf_def block_ok_grow)

lemma strlen_iff:
  "strlen m a off = Some n \<longleftrightarrow>
     a < length m \<and>
     (\<exists>buf. m ! a = Some buf \<and> off + n < length buf \<and> buf ! (off + n) = Some (CHR 0x00) \<and>
            (\<forall>i < n. buf ! (off + i) \<noteq> None \<and> buf ! (off + i) \<noteq> Some (CHR 0x00)))"
proof (cases "a < length m")
  case False
  then show ?thesis by (simp add: strlen_def)
next
  case True
  show ?thesis
  proof (cases "m ! a")
    case None
    with True show ?thesis by (simp add: strlen_def)
  next
    case (Some buf)
    let ?P = "\<lambda>x. x \<noteq> None \<and> x \<noteq> Some (CHR 0x00)"
    let ?xs = "drop off buf"
    let ?k = "length (takeWhile ?P ?xs)"
    have "(off + ?k < length buf \<and> buf ! (off + ?k) = Some (CHR 0x00) \<and> ?k = n) \<longleftrightarrow>
          (off + n < length buf \<and> buf ! (off + n) = Some (CHR 0x00) \<and>
            (\<forall>i < n. ?P (buf ! (off + i))))" (is "?L \<longleftrightarrow> ?R")
    proof
      assume L: ?L
      have "?P (buf ! (off + i))" if "i < n" for i
      proof -
        have "takeWhile ?P ?xs ! i \<in> set (takeWhile ?P ?xs)" using that L by (intro nth_mem) simp
        then have "?P (takeWhile ?P ?xs ! i)" by (rule set_takeWhileD [THEN conjunct2])
        moreover have "takeWhile ?P ?xs ! i = ?xs ! i" using that L by (intro takeWhile_nth) simp
        moreover have "?xs ! i = buf ! (off + i)" using that L by simp
        ultimately show ?thesis by simp
      qed
      with L show ?R by blast
    next
      assume R: ?R
      have "takeWhile ?P ?xs = take n ?xs"
      proof (rule takeWhile_eq_take_P_nth)
        fix i assume "i < n" "i < length ?xs"
        then show "?P (?xs ! i)" using R by simp
      next
        assume "n < length ?xs"
        then show "\<not> ?P (?xs ! n)" using R by simp
      qed
      moreover have "length (take n ?xs) = n" using R by (auto simp: min_def)
      ultimately have "?k = n" by simp
      with R show ?L by simp
    qed
    with True Some show ?thesis by (auto simp: strlen_def Let_def)
  qed
qed

lemma strlen_preserved:
  assumes s: "strlen m a off = Some n" and p: "preserves m m'"
  shows "strlen m' a off = Some n"
proof -
  from s obtain buf where a: "a < length m" and buf: "m ! a = Some buf"
    and n: "off + n < length buf" and nul: "buf ! (off + n) = Some (CHR 0x00)"
    and cells: "\<forall>i < n. buf ! (off + i) \<noteq> None \<and> buf ! (off + i) \<noteq> Some (CHR 0x00)"
    unfolding strlen_iff by blast
  let ?x = "map (\<lambda>i. the (buf ! (off + i))) [0 ..< Suc n]"
  have "read_bytes m (StringView a off (Suc n)) = Some ?x"
  proof (rule read_bytesI [where buf = buf])
    fix i assume "i < sv_size (StringView a off (Suc n))"
    then have i: "i < Suc n" by simp
    then have "buf ! (off + i) \<noteq> None" using cells nul by (cases "i = n") auto
    moreover have "?x ! i = the (buf ! (off + i))" using i
      by (simp del: upt_Suc)
    ultimately show "buf ! (sv_off (StringView a off (Suc n)) + i) = Some (?x ! i)" by auto
  qed (use a buf n in auto)
  then have "read_bytes m' (StringView a off (Suc n)) = Some ?x" using p by (simp add: preservesD)
  then obtain buf' where a': "a < length m'" and buf': "m' ! a = Some buf'"
    and n': "off + Suc n \<le> length buf'"
    and cells': "\<forall>i < Suc n. buf' ! (off + i) = Some (?x ! i)"
    by (rule read_bytesE) auto
  have x: "?x ! i = the (buf ! (off + i))" if "i < Suc n" for i
    using that by (simp del: upt_Suc)
  have same: "buf' ! (off + i) = buf ! (off + i)" if "i < Suc n" for i
  proof -
    have "buf ! (off + i) \<noteq> None" using cells nul that by (cases "i = n") auto
    then show ?thesis using cells' x that by auto
  qed
  have "buf' ! (off + n) = Some (CHR 0x00)" using same [of n] nul by simp
  moreover have "\<forall>i < n. buf' ! (off + i) \<noteq> None \<and> buf' ! (off + i) \<noteq> Some (CHR 0x00)"
    using same cells by simp
  ultimately show ?thesis unfolding strlen_iff using a' buf' n' by auto
qed

lemma call_bytes_preserved:
  assumes cb: "call_bytes m call = Some bs" and p: "preserves m m'"
  shows "call_bytes m' call = Some bs"
proof (cases call)
  case (AppendView str)
  with cb have "read_bytes m str = Some bs" by (simp add: call_bytes_def)
  then have "read_bytes m' str = Some bs" using p by (simp add: preservesD)
  with AppendView show ?thesis by (simp add: call_bytes_def)
next
  case (AppendCStr a off)
  with cb obtain n where n: "strlen m a off = Some n" and r: "read_bytes m (StringView a off n) = Some bs"
    by (auto simp: call_bytes_def split: option.splits)
  from n p have "strlen m' a off = Some n" by (rule strlen_preserved)
  moreover from r have "read_bytes m' (StringView a off n) = Some bs" using p by (simp add: preservesD)
  ultimately show ?thesis using AppendCStr by (simp add: call_bytes_def)
next
  case (AppendMove s)
  with cb show ?thesis by (simp add: call_bytes_def)
next
  case (AppendBorrowed str)
  with cb have "read_bytes m str = Some bs" by (simp add: call_bytes_def)
  then have "read_bytes m' str = Some bs" using p by (simp add: preservesD)
  with AppendBorrowed show ?thesis by (simp add: call_bytes_def)
qed

text \<open>One append, of a value that can be read, to a well-formed column.\<close>

lemma do_append_ok:
  assumes wf: "wf m c" and cb: "call_bytes m call = Some bs"
  obtains m' c' v where "do_append m c call = Inr (m', c')" "wf m' c'" "preserves m m'"
    "items c' = items c @ [v]" "read_bytes m' v = Some bs"
proof (cases call)
  case (AppendView str)
  with cb have "read_bytes m str = Some bs" by (simp add: call_bytes_def)
  with wf obtain m' c' v where "Append m c str = Inr (m', c')" "wf m' c'" "preserves m m'"
    "items c' = items c @ [v]" "read_bytes m' v = Some bs"
    by (rule Append_ok)
  then show ?thesis using that AppendView by (simp add: do_append_def)
next
  case (AppendCStr a off)
  with cb obtain n where n: "strlen m a off = Some n" and r: "read_bytes m (StringView a off n) = Some bs"
    by (auto simp: call_bytes_def split: option.splits)
  from wf r obtain m' c' v where "Append m c (StringView a off n) = Inr (m', c')" "wf m' c'"
    "preserves m m'" "items c' = items c @ [v]" "read_bytes m' v = Some bs"
    by (rule Append_ok [where str = "StringView a off n"])
  then show ?thesis using that AppendCStr n by (simp add: do_append_def Append_cstr_def)
next
  case (AppendMove s)
  with cb have [simp]: "s = bs" by (simp add: call_bytes_def)
  let ?m' = "m @ [Some (map Some bs)]"
  let ?v = "StringView (length m) 0 (length bs)"
  let ?c' = "c\<lparr>items := items c @ [?v], append_data := append_data c @ [length m]\<rparr>"
  have "do_append m c call = Inr (?m', ?c')"
    using AppendMove by (simp add: do_append_def Append_move_def new_string_def)
  moreover have "wf ?m' ?c'" using wf_grow [OF wf, of "[Some (map Some bs)]"] by (simp add: wf_def)
  moreover have "preserves m ?m'" by (rule preserves_grow)
  moreover have "read_bytes ?m' ?v = Some bs"
    by (rule read_bytesI [where buf = "map Some bs"]) simp_all
  ultimately show ?thesis using that [of ?m' ?c' ?v] by simp
next
  case (AppendBorrowed str)
  with cb have "read_bytes m str = Some bs" by (simp add: call_bytes_def)
  moreover have "do_append m c call = Inr (m, c\<lparr>items := items c @ [str]\<rparr>)"
    using AppendBorrowed by (simp add: do_append_def AppendNoManagedLifetime_def)
  moreover have "wf m (c\<lparr>items := items c @ [str]\<rparr>)" using wf by (simp add: wf_def)
  ultimately show ?thesis using that [of m "c\<lparr>items := items c @ [str]\<rparr>" str] preserves_refl by simp
qed

text \<open>Appends of values that can be read, one after the other.\<close>

lemma do_appends_ok:
  assumes "wf m c" "map (call_bytes m) calls = map Some strs"
  obtains m' c' vs where "do_appends m c calls = Inr (m', c')" "wf m' c'" "preserves m m'"
    "items c' = items c @ vs" "reads m' vs strs"
proof -
  have "\<exists>m' c' vs. do_appends m c calls = Inr (m', c') \<and> wf m' c' \<and> preserves m m'
          \<and> items c' = items c @ vs \<and> reads m' vs strs"
    using assms
  proof (induction calls arbitrary: m c strs)
    case Nil
    then show ?case using preserves_refl by auto
  next
    case (Cons call calls)
    then obtain s strs' where strs: "strs = s # strs'" and cb: "call_bytes m call = Some s"
      and rest: "map (call_bytes m) calls = map Some strs'"
      by (cases strs) auto
    from Cons.prems(1) cb obtain m1 c1 v where 1: "do_append m c call = Inr (m1, c1)"
      and wf1: "wf m1 c1" and p1: "preserves m m1" and it1: "items c1 = items c @ [v]"
      and r1: "read_bytes m1 v = Some s"
      by (rule do_append_ok)
    have "map (call_bytes m1) calls = map Some strs'"
    proof (rule nth_equalityI)
      show "length (map (call_bytes m1) calls) = length (map Some strs')"
        using rest by (metis length_map)
    next
      fix i assume i: "i < length (map (call_bytes m1) calls)"
      then have "call_bytes m (calls ! i) = Some (strs' ! i)"
        using rest by (metis length_map nth_map)
      then have "call_bytes m1 (calls ! i) = Some (strs' ! i)" using p1 by (rule call_bytes_preserved)
      then show "map (call_bytes m1) calls ! i = map Some strs' ! i"
        using i rest by (metis length_map nth_map)
    qed
    from Cons.IH [OF wf1 this] obtain m' c' vs where 2: "do_appends m1 c1 calls = Inr (m', c')"
      and wf': "wf m' c'" and p': "preserves m1 m'" and it': "items c' = items c1 @ vs"
      and r': "reads m' vs strs'"
      by blast
    have "do_appends m c (call # calls) = Inr (m', c')" using 1 2 by simp
    moreover have "preserves m m'" using p1 p' by (rule preserves_trans)
    moreover have "items c' = items c @ (v # vs)" using it1 it' by simp
    moreover have "reads m' (v # vs) strs" using r' preservesD [OF p' r1] strs by simp
    ultimately show ?case using wf' by blast
  qed
  then show ?thesis using that by blast
qed

section \<open>Slice and Clear\<close>

lemma Append_no_new_block:
  "blocks c \<noteq> [] \<Longrightarrow> \<not> GetAvailable (last (blocks c)) < sv_size str \<Longrightarrow>
   Append m c str = AppendUnsafe m c str"
  by (simp add: Append_def)

lemma take_drop_step:
  "i < stop \<Longrightarrow> stop \<le> length xs \<Longrightarrow>
   take (stop - i) (drop i xs) = xs ! i # take (stop - Suc i) (drop (Suc i) xs)"
  by (metis Cons_nth_drop_Suc Suc_diff_Suc less_le_trans take_Suc_Cons)

text \<open>
  The loop of \<open>Slice\<close>, started on a well-formed result whose current block has
  room for the rows still to be copied. No block is added.
\<close>

lemma Slice_loop_ok:
  assumes "wf m r" "blocks r \<noteq> []" "reads m its xs" "i \<le> stop" "stop \<le> length its"
    "bsize (last (blocks r)) + sum_list (map sv_size (take (stop - i) (drop i its)))
       \<le> capacity (last (blocks r))"
  shows "\<exists>m' r' vs. Slice_loop m its r i stop = Inr (m', r') \<and> wf m' r' \<and> preserves m m'
           \<and> length m' = length m \<and> items r' = items r @ vs
           \<and> reads m' vs (take (stop - i) (drop i xs))
           \<and> (\<forall>v \<in> set vs. sv_data v = data (last (blocks r)))
           \<and> map data (blocks r') = map data (blocks r)
           \<and> append_data r' = append_data r"
  using assms
proof (induction "stop - i" arbitrary: m r i)
  case 0
  then have "Slice_loop m its r i stop = Inr (m, r)" by (subst Slice_loop.simps) simp
  then show ?case using 0 preserves_refl by auto
next
  case (Suc k)
  then have i: "i < stop" by simp
  let ?b = "last (blocks r)"
  let ?str = "its ! i"
  have len: "length xs = length its" using Suc.prems(3) by (simp add: list_all2_lengthD)
  have step: "take (stop - i) (drop i its) = ?str # take (stop - Suc i) (drop (Suc i) its)"
    using i Suc.prems(5) by (rule take_drop_step)
  have stepx: "take (stop - i) (drop i xs) = xs ! i # take (stop - Suc i) (drop (Suc i) xs)"
    using i Suc.prems(5) len by (intro take_drop_step) simp_all
  have rd: "read_bytes m ?str = Some (xs ! i)"
    using Suc.prems(3,5) i by (simp add: list_all2_conv_all_nth)
  have room: "bsize ?b + sv_size ?str \<le> capacity ?b" using Suc.prems(6) step by simp
  have le: "bsize ?b \<le> capacity ?b" using Suc.prems(1,2) by (rule wf_last_block)
  have "\<not> GetAvailable ?b < sv_size ?str" using room le by (simp add: GetAvailable_ok)
  then have app: "Append m r ?str = AppendUnsafe m r ?str"
    using Suc.prems(2) by (intro Append_no_new_block)
  let ?v = "StringView (data ?b) (bsize ?b) (sv_size ?str)"
  let ?r1 = "r\<lparr>items := items r @ [?v],
               blocks := butlast (blocks r) @ [?b\<lparr>bsize := bsize ?b + sv_size ?str\<rparr>]\<rparr>"
  from Suc.prems(1,2) rd room obtain m1 where
    A: "AppendUnsafe m r ?str = Inr (m1, ?r1)" and wf1: "wf m1 ?r1" and p1: "preserves m m1"
    and l1: "length m1 = length m" and r1: "read_bytes m1 ?v = Some (xs ! i)"
    by (rule AppendUnsafe_ok)
  have k: "k = stop - Suc i" using Suc.hyps(2) by simp
  have ne1: "blocks ?r1 \<noteq> []" by simp
  have rds1: "reads m1 its xs" using p1 Suc.prems(3) by (rule reads_preserved)
  have room1: "bsize (last (blocks ?r1)) + sum_list (map sv_size (take (stop - Suc i) (drop (Suc i) its)))
       \<le> capacity (last (blocks ?r1))"
    using Suc.prems(6) step by simp
  from Suc.hyps(1) [OF k wf1 ne1 rds1 _ Suc.prems(5) room1] i
  obtain m' r' vs where
    L: "Slice_loop m1 its ?r1 (Suc i) stop = Inr (m', r')" and wf': "wf m' r'"
    and p': "preserves m1 m'" and l': "length m' = length m1" and it': "items r' = items ?r1 @ vs"
    and rds': "reads m' vs (take (stop - Suc i) (drop (Suc i) xs))"
    and dat': "\<forall>v \<in> set vs. sv_data v = data (last (blocks ?r1))"
    and bl': "map data (blocks r') = map data (blocks ?r1)"
    and ad': "append_data r' = append_data ?r1"
    by auto
  have "Slice_loop m its r i stop = Inr (m', r')"
    using i app A L by (subst Slice_loop.simps) simp
  moreover have "preserves m m'" using p1 p' by (rule preserves_trans)
  moreover have "items r' = items r @ (?v # vs)" using it' by simp
  moreover have "reads m' (?v # vs) (take (stop - i) (drop i xs))"
    using rds' preservesD [OF p' r1] stepx by simp
  moreover have "\<forall>v \<in> set (?v # vs). sv_data v = data ?b" using dat' by simp
  moreover have "map data (blocks r') = map data (blocks r)"
  proof -
    have "map data (blocks ?r1) = map data (butlast (blocks r) @ [?b])" by simp
    also have "\<dots> = map data (blocks r)" using Suc.prems(2) by simp
    finally show ?thesis using bl' by simp
  qed
  ultimately show ?case using wf' l' l1 ad' by (intro exI [of _ m'] exI [of _ r'] exI [of _ "?v # vs"]) simp
qed

lemma Slice_ok:
  assumes rd: "reads m (items c) xs" and total: "sum_list (map length xs) < 2 ^ 64"
  shows "\<exists>m' r. Slice m c begin len = Inr (m', r) \<and> preserves m m'
           \<and> reads m' (items r) (take len (drop begin xs))
           \<and> (\<forall>v \<in> set (items r). sv_data v = length m)
           \<and> (length xs \<le> begin \<longrightarrow> m' = m \<and> r = ColumnIxJson_ctor)"
proof (cases "begin < length (items c)")
  case False
  moreover have "length xs = length (items c)" using rd by (simp add: list_all2_lengthD)
  ultimately show ?thesis using preserves_refl by (simp add: Slice_def ColumnIxJson_ctor_def)
next
  case True
  have len: "length xs = length (items c)" using rd by (simp add: list_all2_lengthD)
  let ?n = "min len (length (items c) - begin)"
  let ?total = "ComputeTotalSize (items c) begin ?n"
  let ?m1 = "m @ [Some (replicate ?total None)]"
  let ?r1 = "ColumnIxJson_ctor\<lparr>blocks := blocks ColumnIxJson_ctor @ [\<lparr>bsize = 0, capacity = ?total, data = length m\<rparr>]\<rparr>"
  have S: "Slice m c begin len = Slice_loop ?m1 (items c) ?r1 begin (begin + ?n)"
    using True by (simp add: Slice_def Let_def emplace_block_eq)
  have wf1: "wf ?m1 ?r1" by (rule wf_emplace_block)
  have ne1: "blocks ?r1 \<noteq> []" by simp
  have p1: "preserves m ?m1" by (rule preserves_grow)
  have rd1: "reads ?m1 (items c) xs" using p1 rd by (rule reads_preserved)
  have "sum_list (map sv_size (take ?n (drop begin (items c)))) \<le> sum_list (map sv_size (items c))"
    by (rule sum_list_take_drop_le)
  then have "sum_list (map sv_size (take ?n (drop begin (items c)))) < 2 ^ 64"
    using total reads_sizes [OF rd] by simp
  then have room: "bsize (last (blocks ?r1)) + sum_list (map sv_size (take (begin + ?n - begin) (drop begin (items c))))
       \<le> capacity (last (blocks ?r1))"
    by (simp add: ComputeTotalSize_eq)
  have "begin \<le> begin + ?n" "begin + ?n \<le> length (items c)" using True by simp_all
  from Slice_loop_ok [OF wf1 ne1 rd1 this room] obtain m' r' vs where
    L: "Slice_loop ?m1 (items c) ?r1 begin (begin + ?n) = Inr (m', r')"
    and p': "preserves ?m1 m'" and it': "items r' = items ?r1 @ vs"
    and rds': "reads m' vs (take (begin + ?n - begin) (drop begin xs))"
    and dat': "\<forall>v \<in> set vs. sv_data v = data (last (blocks ?r1))"
    by blast
  have "take ?n (drop begin xs) = take len (drop begin xs)" using len by (simp add: min_def)
  then have "reads m' (items r') (take len (drop begin xs))"
    using rds' it' by (simp add: ColumnIxJson_ctor_def)
  moreover have "\<forall>v \<in> set (items r'). sv_data v = length m"
    using dat' it' by (simp add: ColumnIxJson_ctor_def)
  moreover have "preserves m m'" using p1 p' by (rule preserves_trans)
  ultimately show ?thesis using S L True len by auto
qed

lemma read_bytes_clear_blocks:
  "\<forall>b \<in> set bs. data b \<noteq> sv_data v \<Longrightarrow> read_bytes (clear_blocks m bs) v = read_bytes m v"
  unfolding clear_blocks_def
  by (induction bs arbitrary: m) (simp_all add: delete_array_def read_bytes_update_other)

lemma read_bytes_clear_strings:
  "\<forall>a \<in> set as. a \<noteq> sv_data v \<Longrightarrow> read_bytes (clear_strings m as) v = read_bytes m v"
  unfolding clear_strings_def
  by (induction as arbitrary: m) (simp_all add: delete_array_def read_bytes_update_other)

text \<open>\<open>Clear\<close> leaves alone what lies outside the arrays that the column owns.\<close>

lemma read_bytes_Clear:
  assumes "\<forall>b \<in> set (blocks c). data b \<noteq> sv_data v" "\<forall>a \<in> set (append_data c). a \<noteq> sv_data v"
  shows "read_bytes (fst (Clear m c)) v = read_bytes m v"
  using assms by (simp add: Clear_def read_bytes_clear_blocks read_bytes_clear_strings)

lemma take_drop_range:
  "take len (drop b xs) = map ((!) xs) [b ..< min (b + len) (length xs)]"
  by (rule nth_equalityI) auto

section \<open>Appending a column\<close>

lemma As_SomeD:
  "As_ColumnIxJson w r = Some c \<Longrightarrow> r < length (objs w) \<and> objs w ! r = IxJson c"
  by (auto simp: As_ColumnIxJson_def split: if_splits column.splits)

lemma As_put_same: "r < length (objs w) \<Longrightarrow> As_ColumnIxJson (put w r m c) r = Some c"
  by (simp add: As_ColumnIxJson_def put_def)

lemma As_put_other: "r' \<noteq> r \<Longrightarrow> As_ColumnIxJson (put w r m c) r' = As_ColumnIxJson w r'"
  by (simp add: As_ColumnIxJson_def put_def)

lemma mem_put [simp]: "mem (put w r m c) = m"
  by (simp add: put_def)

lemma objs_put [simp]: "objs (put w r m c) = (objs w)[r := IxJson c]"
  by (simp add: put_def)

lemma put_put [simp]: "put (put w r m c) r m' c' = put w r m' c'"
  by (simp add: put_def)

lemma put_same:
  assumes "As_ColumnIxJson w r = Some c"
  shows "put w r (mem w) c = w"
proof -
  from assms have "objs w ! r = IxJson c" by (simp add: As_SomeD)
  then have "(objs w)[r := IxJson c] = objs w" by (metis list_update_id)
  then show ?thesis by (simp add: put_def)
qed

lemma subscript_in_range: "i < Size c \<Longrightarrow> subscript c i = Inr (items c ! i)"
  by (simp add: subscript_def Size_def)

text \<open>
  The loop of \<open>Append(ColumnRef)\<close> when the argument is another object than the
  receiver, the receiver is well formed, the rows of the argument can be read and
  the current block has room for all of them from \<open>i\<close> on: it returns, having
  appended copies of these rows.
\<close>

lemma Append_loop_ok:
  assumes "this \<noteq> column" "As_ColumnIxJson w this = Some A" "As_ColumnIxJson w column = Some B"
    "wf (mem w) A" "blocks A \<noteq> []" "reads (mem w) (items B) ys" "i \<le> length (items B)"
    "bsize (last (blocks A)) + sum_list (map sv_size (drop i (items B))) \<le> capacity (last (blocks A))"
  shows "\<exists>w' A' vs. Append_loop w this column i = Some (Inr w') \<and>
           w' = put w this (mem w') A' \<and> wf (mem w') A' \<and> preserves (mem w) (mem w') \<and>
           items A' = items A @ vs \<and> reads (mem w') vs (drop i ys) \<and>
           append_data A' = append_data A"
  using assms
proof (induction "length (items B) - i" arbitrary: w A i)
  case 0
  then have "Append_loop w this column i = Some (Inr w)"
    by (subst Append_loop.simps) (simp add: Size_def)
  moreover have "length ys = length (items B)" using "0.prems"(6) by (simp add: list_all2_lengthD)
  ultimately show ?case using 0 preserves_refl put_same [OF "0.prems"(2)]
    by (intro exI [of _ w] exI [of _ A] exI [of _ "[]"]) simp
next
  case (Suc k)
  then have i: "i < length (items B)" by simp
  let ?b = "last (blocks A)"
  let ?str = "items B ! i"
  have len: "length ys = length (items B)" using Suc.prems(6) by (simp add: list_all2_lengthD)
  have step: "drop i (items B) = ?str # drop (Suc i) (items B)" using i by (simp add: Cons_nth_drop_Suc)
  have stepy: "drop i ys = ys ! i # drop (Suc i) ys" using i len by (simp add: Cons_nth_drop_Suc)
  have rd: "read_bytes (mem w) ?str = Some (ys ! i)"
    using Suc.prems(6) i by (simp add: list_all2_conv_all_nth)
  have room: "bsize ?b + sv_size ?str \<le> capacity ?b" using Suc.prems(8) step by simp
  let ?v = "StringView (data ?b) (bsize ?b) (sv_size ?str)"
  let ?A1 = "A\<lparr>items := items A @ [?v],
               blocks := butlast (blocks A) @ [?b\<lparr>bsize := bsize ?b + sv_size ?str\<rparr>]\<rparr>"
  from Suc.prems(4,5) rd room obtain m1 where
    A: "AppendUnsafe (mem w) A ?str = Inr (m1, ?A1)" and wf1: "wf m1 ?A1"
    and p1: "preserves (mem w) m1" and r1: "read_bytes m1 ?v = Some (ys ! i)"
    by (rule AppendUnsafe_ok)
  let ?w1 = "put w this m1 ?A1"
  have this_lt: "this < length (objs w)" using Suc.prems(2) by (simp add: As_SomeD)
  have As1: "As_ColumnIxJson ?w1 this = Some ?A1" using this_lt by (rule As_put_same)
  have Bs1: "As_ColumnIxJson ?w1 column = Some B"
    using Suc.prems(1,3) by (simp add: As_put_other)
  have k: "k = length (items B) - Suc i" using Suc.hyps(2) by simp
  have wf1': "wf (mem ?w1) ?A1" using wf1 by simp
  have ne1: "blocks ?A1 \<noteq> []" by simp
  have rds1: "reads (mem ?w1) (items B) ys" using reads_preserved [OF p1 Suc.prems(6)] by simp
  have i1: "Suc i \<le> length (items B)" using i by simp
  have room1: "bsize (last (blocks ?A1)) + sum_list (map sv_size (drop (Suc i) (items B)))
                 \<le> capacity (last (blocks ?A1))"
    using Suc.prems(8) step by simp
  from Suc.hyps(1) [OF k Suc.prems(1) As1 Bs1 wf1' ne1 rds1 i1 room1]
  obtain w' A' vs where
    L: "Append_loop ?w1 this column (Suc i) = Some (Inr w')"
    and w': "w' = put ?w1 this (mem w') A'" and wf': "wf (mem w') A'"
    and p': "preserves (mem ?w1) (mem w')" and it': "items A' = items ?A1 @ vs"
    and rds': "reads (mem w') vs (drop (Suc i) ys)" and ad': "append_data A' = append_data ?A1"
    by blast
  have "Append_loop w this column i = Some (Inr w')"
    using Suc.prems(2,3) i A L
    by (subst Append_loop.simps) (simp add: Size_def subscript_def)
  moreover have "w' = put w this (mem w') A'" using w' by simp
  moreover have "preserves (mem w) (mem w')" using p1 p' by (simp add: preserves_trans)
  moreover have "items A' = items A @ (?v # vs)" using it' by simp
  moreover have "reads (mem w') (?v # vs) (drop i ys)"
    using rds' preservesD [of m1 "mem w'", OF _ r1] p' stepy by simp
  ultimately show ?case using wf' ad'
    by (intro exI [of _ w'] exI [of _ A'] exI [of _ "?v # vs"]) simp
qed

text \<open>\<open>Append(ColumnRef)\<close> of another column of the same class.\<close>

lemma Append_column_ok:
  assumes ne: "this \<noteq> column" and A: "As_ColumnIxJson w this = Some A"
    and B: "As_ColumnIxJson w column = Some B" and wf: "wf (mem w) A"
    and rd: "reads (mem w) (items B) ys" and bound: "Size B \<le> SIZE_MAX"
    and bytes: "sum_list (map length ys) < 2 ^ 64"
  obtains w' A' vs where "Append_column w this column = Some (Inr w')"
    "w' = put w this (mem w') A'" "wf (mem w') A'" "preserves (mem w) (mem w')"
    "items A' = items A @ vs" "reads (mem w') vs ys" "append_data A' = append_data A"
proof -
  let ?total = "ComputeTotalSize (items B) 0 SIZE_MAX"
  have total: "?total = sum_list (map sv_size (items B))"
    using bound bytes reads_sizes [OF rd] by (simp add: ComputeTotalSize_all Size_def)
  obtain m1 A1 where eq: "(if length (blocks A) = 0 \<or> GetAvailable (last (blocks A)) < ?total
              then emplace_block (mem w) A (max DEFAULT_BLOCK_SIZE ?total) else (mem w, A)) = (m1, A1)"
    by (metis surj_pair)
  note room = make_room [OF wf eq]
  let ?w1 = "put w this m1 A1"
  have this_lt: "this < length (objs w)" and col: "column < length (objs w)"
    using A B by (simp_all add: As_SomeD)
  have As1: "As_ColumnIxJson ?w1 this = Some A1" using this_lt by (rule As_put_same)
  have Bs1: "As_ColumnIxJson ?w1 column = Some B" using ne B by (simp add: As_put_other)
  have wf1: "wf (mem ?w1) A1" using room(1) by simp
  have rds1: "reads (mem ?w1) (items B) ys" using reads_preserved [OF room(4) rd] by simp
  have room1: "bsize (last (blocks A1)) + sum_list (map sv_size (drop 0 (items B)))
                 \<le> capacity (last (blocks A1))"
    using room(3) total by simp
  from Append_loop_ok [OF ne As1 Bs1 wf1 room(2) rds1 _ room1]
  obtain w' A' vs where
    L: "Append_loop ?w1 this column 0 = Some (Inr w')"
    and w': "w' = put ?w1 this (mem w') A'" and wf': "wf (mem w') A'"
    and p': "preserves (mem ?w1) (mem w')" and it': "items A' = items A1 @ vs"
    and rds': "reads (mem w') vs (drop 0 ys)" and ad': "append_data A' = append_data A1"
    by auto
  have "Append_column w this column = Some (Inr w')"
    using A B col L by (simp only: Append_column_def option.case if_True Let_def eq prod.case)
  moreover have "w' = put w this (mem w') A'" using w' by simp
  moreover have "preserves (mem w) (mem w')" using room(4) p' by (simp add: preserves_trans)
  ultimately show ?thesis using that [of w' A' vs] wf' it' rds' ad' room(5,6) by simp
qed

text \<open>A copy by \<open>AppendUnsafe\<close> adds one row.\<close>

lemma AppendUnsafe_items:
  "AppendUnsafe m c str = Inr (m', c') \<Longrightarrow> \<exists>v. items c' = items c @ [v]"
  by (auto simp: AppendUnsafe_def Block_AppendUnsafe_def split: if_splits option.splits)

text \<open>
  The loop of \<open>Append(ColumnRef)\<close> when the argument is the receiver itself: as long
  as \<open>i\<close> is below the row count it stays below, so the loop never leaves through
  its test. If it ends, it ends in undefined behaviour.
\<close>

lemma Append_loop_self:
  assumes run: "Append_loop w this column i = Some y"
  shows "this = column \<longrightarrow> (\<forall>c. As_ColumnIxJson w this = Some c \<longrightarrow> i < Size c \<longrightarrow> isl y)"
proof (rule Append_loop.raw_induct [OF _ run])
  fix f :: "world \<Rightarrow> nat \<Rightarrow> nat \<Rightarrow> nat \<Rightarrow> (fault + world) option"
    and w :: world and this column i :: nat and y :: "fault + world"
  assume IH: "\<And>w this column i y. f w this column i = Some y \<Longrightarrow>
      this = column \<longrightarrow> (\<forall>c. As_ColumnIxJson w this = Some c \<longrightarrow> i < Size c \<longrightarrow> isl y)"
  assume step: "(case As_ColumnIxJson w this of
        None \<Rightarrow> Some (Inl UndefinedBehaviour)
      | Some self \<Rightarrow>
          (case As_ColumnIxJson w column of
             None \<Rightarrow> Some (Inl UndefinedBehaviour)
           | Some col \<Rightarrow>
               if i < Size col then
                 (case subscript col i of
                    Inl e \<Rightarrow> Some (Inl e)
                  | Inr v \<Rightarrow>
                      (case AppendUnsafe (mem w) self v of
                         Inl e \<Rightarrow> Some (Inl e)
                       | Inr (m', self') \<Rightarrow> f (put w this m' self') this column (Suc i)))
               else Some (Inr w))) = Some y"
  show "this = column \<longrightarrow> (\<forall>c. As_ColumnIxJson w this = Some c \<longrightarrow> i < Size c \<longrightarrow> isl y)"
  proof (intro impI allI)
    fix c assume same: "this = column" and c: "As_ColumnIxJson w this = Some c" and i: "i < Size c"
    show "isl y"
    proof (cases "AppendUnsafe (mem w) c (items c ! i)")
      case (Inl e)
      with step same c i show ?thesis by (auto simp: subscript_in_range)
    next
      case (Inr r)
      then obtain m' c' where r: "AppendUnsafe (mem w) c (items c ! i) = Inr (m', c')"
        by (cases r) simp
      with step same c i have call: "f (put w this m' c') this this (Suc i) = Some y"
        by (simp add: subscript_in_range)
      from r obtain v where "items c' = items c @ [v]" by (auto dest: AppendUnsafe_items)
      then have "Suc i < Size c'" using i by (simp add: Size_def)
      moreover have "As_ColumnIxJson (put w this m' c') this = Some c'"
        using c by (intro As_put_same) (simp add: As_SomeD)
      ultimately show ?thesis using IH [OF call] by simp
    qed
  qed
qed


text \<open>A column object is its three containers.\<close>

lemma ColumnIxJson_fields:
  "c\<lparr>items := items d, blocks := blocks d, append_data := append_data d\<rparr> = (d :: ColumnIxJson)"
  by (cases c, cases d) simp

section \<open>Row counts and earlier rows\<close>

text \<open>What the managed copy leaves as it was, when it returns.\<close>

lemma Append_frame:
  assumes wf: "wf m c" and run: "Append m c str = Inr (m', c')"
  shows "wf m' c' \<and> preserves m m' \<and> (\<exists>v. items c' = items c @ [v])"
proof -
  obtain m1 c1 where eq: "(if length (blocks c) = 0 \<or> GetAvailable (last (blocks c)) < sv_size str
              then emplace_block m c (max DEFAULT_BLOCK_SIZE (sv_size str)) else (m, c)) = (m1, c1)"
    by (metis surj_pair)
  note room = make_room [OF wf eq]
  have A: "AppendUnsafe m1 c1 str = Inr (m', c')"
    using run by (simp only: Append_def eq prod.case)
  then obtain bs where r1: "read_bytes m1 str = Some bs"
    by (auto simp: AppendUnsafe_def Block_AppendUnsafe_def split: if_splits option.splits)
  let ?v = "StringView (data (last (blocks c1))) (bsize (last (blocks c1))) (sv_size str)"
  let ?c' = "c1\<lparr>items := items c1 @ [?v],
                 blocks := butlast (blocks c1) @ [(last (blocks c1))\<lparr>bsize := bsize (last (blocks c1)) + sv_size str\<rparr>]\<rparr>"
  from room(1,2) r1 room(3) obtain m2 where
    A': "AppendUnsafe m1 c1 str = Inr (m2, ?c')" and B: "wf m2 ?c'" and C: "preserves m1 m2"
    by (rule AppendUnsafe_ok)
  from A A' have "m' = m2" "c' = ?c'" by simp_all
  moreover have "preserves m m2" using room(4) C by (rule preserves_trans)
  ultimately show ?thesis using B room(5) by simp
qed

lemma do_append_frame:
  assumes wf: "wf m c" and run: "do_append m c call = Inr (m', c')"
  shows "wf m' c' \<and> preserves m m' \<and> (\<exists>v. items c' = items c @ [v])"
proof (cases call)
  case (AppendView str)
  with run have "Append m c str = Inr (m', c')" by (simp add: do_append_def)
  with wf show ?thesis by (rule Append_frame)
next
  case (AppendCStr a off)
  with run obtain n where "Append m c (StringView a off n) = Inr (m', c')"
    by (auto simp: do_append_def Append_cstr_def split: option.splits)
  with wf show ?thesis by (rule Append_frame)
next
  case (AppendMove s)
  with run have "m' = m @ [Some (map Some s)]"
    and "c' = c\<lparr>items := items c @ [StringView (length m) 0 (length s)],
                  append_data := append_data c @ [length m]\<rparr>"
    by (simp_all add: do_append_def Append_move_def new_string_def)
  then show ?thesis using wf_grow [OF wf, of "[Some (map Some s)]"] preserves_grow
    by (simp add: wf_def)
next
  case (AppendBorrowed str)
  with run have "m' = m" "c' = c\<lparr>items := items c @ [str]\<rparr>"
    by (simp_all add: do_append_def AppendNoManagedLifetime_def)
  then show ?thesis using wf preserves_refl by (simp add: wf_def)
qed

lemma do_appends_frame:
  "wf m c \<Longrightarrow> do_appends m c calls = Inr (m', c') \<Longrightarrow>
   wf m' c' \<and> preserves m m' \<and> (\<exists>vs. length vs = length calls \<and> items c' = items c @ vs)"
proof (induction calls arbitrary: m c)
  case Nil
  then show ?case using preserves_refl by simp
next
  case (Cons call calls)
  from Cons.prems(2) obtain m1 c1 where 1: "do_append m c call = Inr (m1, c1)"
    and 2: "do_appends m1 c1 calls = Inr (m', c')"
    by (auto split: sum.splits)
  from do_append_frame [OF Cons.prems(1) 1] obtain v where wf1: "wf m1 c1"
    and p1: "preserves m m1" and it1: "items c1 = items c @ [v]"
    by blast
  from Cons.IH [OF wf1 2] obtain vs where wf': "wf m' c'" and p': "preserves m1 m'"
    and len: "length vs = length calls" and it': "items c' = items c1 @ vs"
    by blast
  have "preserves m m'" using p1 p' by (rule preserves_trans)
  moreover have "items c' = items c @ (v # vs)" using it1 it' by simp
  moreover have "length (v # vs) = length (call # calls)" using len by simp
  ultimately show ?case using wf' by blast
qed

lemma row_Inr_iff:
  "row m c n = Inr bs \<longleftrightarrow> n < length (items c) \<and> read_bytes m (items c ! n) = Some bs"
  by (auto simp: row_def At_def split: option.splits)

lemma Append_size: "Append m c str = Inr (m', c') \<Longrightarrow> Size c' = Size c + 1"
  by (auto simp: Append_def emplace_block_eq Size_def split: if_splits dest!: AppendUnsafe_items)

lemma Append_cstr_size: "Append_cstr m c a off = Inr (m', c') \<Longrightarrow> Size c' = Size c + 1"
  by (auto simp: Append_cstr_def split: option.splits dest: Append_size)

text \<open>
  The loop of \<open>Append(ColumnRef)\<close> on another object than the receiver: when it
  returns, it has appended a row for every index from \<open>i\<close> on.
\<close>

lemma Append_loop_size:
  assumes run: "Append_loop w this column i = Some y"
  shows "this \<noteq> column \<longrightarrow>
         (\<forall>A B w'. y = Inr w' \<longrightarrow> As_ColumnIxJson w this = Some A \<longrightarrow>
            As_ColumnIxJson w column = Some B \<longrightarrow> i \<le> Size B \<longrightarrow>
            (\<exists>A'. As_ColumnIxJson w' this = Some A' \<and> Size A' + i = Size A + Size B))"
proof (rule Append_loop.raw_induct [OF _ run])
  fix f :: "world \<Rightarrow> nat \<Rightarrow> nat \<Rightarrow> nat \<Rightarrow> (fault + world) option"
    and w :: world and this column i :: nat and y :: "fault + world"
  assume IH: "\<And>w this column i y. f w this column i = Some y \<Longrightarrow>
      this \<noteq> column \<longrightarrow>
         (\<forall>A B w'. y = Inr w' \<longrightarrow> As_ColumnIxJson w this = Some A \<longrightarrow>
            As_ColumnIxJson w column = Some B \<longrightarrow> i \<le> Size B \<longrightarrow>
            (\<exists>A'. As_ColumnIxJson w' this = Some A' \<and> Size A' + i = Size A + Size B))"
  assume step: "(case As_ColumnIxJson w this of
        None \<Rightarrow> Some (Inl UndefinedBehaviour)
      | Some self \<Rightarrow>
          (case As_ColumnIxJson w column of
             None \<Rightarrow> Some (Inl UndefinedBehaviour)
           | Some col \<Rightarrow>
               if i < Size col then
                 (case subscript col i of
                    Inl e \<Rightarrow> Some (Inl e)
                  | Inr v \<Rightarrow>
                      (case AppendUnsafe (mem w) self v of
                         Inl e \<Rightarrow> Some (Inl e)
                       | Inr (m', self') \<Rightarrow> f (put w this m' self') this column (Suc i)))
               else Some (Inr w))) = Some y"
  show "this \<noteq> column \<longrightarrow>
         (\<forall>A B w'. y = Inr w' \<longrightarrow> As_ColumnIxJson w this = Some A \<longrightarrow>
            As_ColumnIxJson w column = Some B \<longrightarrow> i \<le> Size B \<longrightarrow>
            (\<exists>A'. As_ColumnIxJson w' this = Some A' \<and> Size A' + i = Size A + Size B))"
  proof (intro impI allI)
    fix A B w'
    assume ne: "this \<noteq> column" and y: "y = Inr w'" and A: "As_ColumnIxJson w this = Some A"
      and B: "As_ColumnIxJson w column = Some B" and i: "i \<le> Size B"
    show "\<exists>A'. As_ColumnIxJson w' this = Some A' \<and> Size A' + i = Size A + Size B"
    proof (cases "i < Size B")
      case False
      with step A B y have "w' = w" by simp
      with A False i show ?thesis by simp
    next
      case True
      show ?thesis
      proof (cases "AppendUnsafe (mem w) A (items B ! i)")
        case (Inl e)
        with step A B True y show ?thesis by (simp add: subscript_in_range)
      next
        case (Inr r)
        then obtain m1 A1 where r: "AppendUnsafe (mem w) A (items B ! i) = Inr (m1, A1)"
          by (cases r) simp
        with step A B True y have call: "f (put w this m1 A1) this column (Suc i) = Some (Inr w')"
          by (simp add: subscript_in_range)
        from r obtain v where "items A1 = items A @ [v]" by (auto dest: AppendUnsafe_items)
        then have sz: "Size A1 = Suc (Size A)" by (simp add: Size_def)
        have A1: "As_ColumnIxJson (put w this m1 A1) this = Some A1"
          using A by (intro As_put_same) (simp add: As_SomeD)
        have B1: "As_ColumnIxJson (put w this m1 A1) column = Some B"
          using ne B by (simp add: As_put_other)
        from IH [OF call] ne A1 B1 True obtain A' where
          "As_ColumnIxJson w' this = Some A'" "Size A' + Suc i = Size A1 + Size B"
          by (metis Suc_leI)
        then show ?thesis using sz by auto
      qed
    qed
  qed
qed

text \<open>How \<open>Append(ColumnRef)\<close> with a column of the same class enters its loop.\<close>

lemma Append_column_start:
  assumes A: "As_ColumnIxJson w this = Some A" and B: "As_ColumnIxJson w column = Some B"
  obtains m1 A1 where
    "Append_column w this column = Append_loop (put w this m1 A1) this column 0"
    "items A1 = items A" "As_ColumnIxJson (put w this m1 A1) this = Some A1"
proof -
  let ?total = "ComputeTotalSize (items B) 0 SIZE_MAX"
  obtain m1 A1 where eq: "(if length (blocks A) = 0 \<or> GetAvailable (last (blocks A)) < ?total
              then emplace_block (mem w) A (max DEFAULT_BLOCK_SIZE ?total) else (mem w, A)) = (m1, A1)"
    by (metis surj_pair)
  have this_lt: "this < length (objs w)" and col: "column < length (objs w)"
    using A B by (simp_all add: As_SomeD)
  have "Append_column w this column = Append_loop (put w this m1 A1) this column 0"
    using A B col by (simp only: Append_column_def option.case if_True Let_def eq prod.case)
  moreover have "items A1 = items A"
    using eq by (auto simp: emplace_block_eq split: if_splits)
  moreover have "As_ColumnIxJson (put w this m1 A1) this = Some A1" using this_lt by (rule As_put_same)
  ultimately show ?thesis by (rule that)
qed

lemma Append_column_size:
  assumes run: "Append_column w this column = Some (Inr w')"
    and A: "As_ColumnIxJson w this = Some A" and B: "As_ColumnIxJson w column = Some B"
  shows "\<exists>A'. As_ColumnIxJson w' this = Some A' \<and> Size A' = Size A + Size B"
proof -
  from A B obtain m1 A1 where
    start: "Append_column w this column = Append_loop (put w this m1 A1) this column 0"
    and it1: "items A1 = items A" and A1: "As_ColumnIxJson (put w this m1 A1) this = Some A1"
    by (rule Append_column_start)
  from run start have loop: "Append_loop (put w this m1 A1) this column 0 = Some (Inr w')" by simp
  have sz1: "Size A1 = Size A" using it1 by (simp add: Size_def)
  show ?thesis
  proof (cases "this = column")
    case True
    with A B have [simp]: "B = A" by simp
    have "\<not> 0 < Size A1" using Append_loop_self [OF loop] True A1 by auto
    then have z: "Size A1 = 0" by simp
    then have "Append_loop (put w this m1 A1) this column 0 = Some (Inr (put w this m1 A1))"
      using A1 True by (subst Append_loop.simps) simp
    with loop have "w' = put w this m1 A1" by simp
    with A1 z sz1 show ?thesis by simp
  next
    case False
    then have "As_ColumnIxJson (put w this m1 A1) column = Some B" using B by (simp add: As_put_other)
    with Append_loop_size [OF loop] False A1 obtain A' where
      "As_ColumnIxJson w' this = Some A'" "Size A' + 0 = Size A1 + Size B"
      by (metis le0)
    then show ?thesis using sz1 by auto
  qed
qed

section \<open>The properties of the column\<close>

text \<open>
  C1. Take any byte strings \<open>strs\<close> (each shorter than \<open>2 ^ 64\<close>, as every
  \<open>size_t\<close> length is, and no more of them than a vector of views can hold),
  passed by calls of any of the four kinds that read as \<open>strs\<close> in the caller's
  memory. Appending them in order to a fresh column succeeds and gives a column
  whose rows are \<open>strs\<close>; \<open>SaveBody\<close> of it succeeds and writes the rows in
  order, each as its length prefix and its bytes; and \<open>LoadBody\<close> of what was
  written, into a fresh column with the row count \<open>length strs\<close>, returns true,
  has read the whole stream, and leaves a column whose rows, read through \<open>At\<close>
  in index order, are \<open>strs\<close> again. The allocator that \<open>LoadBody\<close> runs with
  serves the vector of \<open>length strs\<close> views, a block of the default size and a
  block for the longest of the strings.
\<close>

theorem SaveBody_LoadBody_roundtrip:
  assumes calls: "map (call_bytes m) calls = map Some strs"
    and bound: "\<forall>s \<in> set strs. length s < 2 ^ 64"
    and count: "length strs \<le> items_max_size"
    and views: "length strs * sizeof_string_view \<le> limit"
    and block: "DEFAULT_BLOCK_SIZE \<le> limit"
    and fits: "\<forall>s \<in> set strs. length s \<le> limit"
  shows "\<exists>m1 c1 out m2 c2.
           do_appends m ColumnIxJson_ctor calls = Inr (m1, c1) \<and>
           contents m1 c1 = map Inr strs \<and>
           SaveBody m1 c1 [] = Inr out \<and> out = wire_rows strs \<and>
           LoadBody limit m1 ColumnIxJson_ctor out (length strs) = Inr (m2, c2, [], True) \<and>
           contents m2 c2 = map Inr strs"
proof -
  from wf_ctor calls obtain m1 c1 vs where
    build: "do_appends m ColumnIxJson_ctor calls = Inr (m1, c1)"
    and it1: "items c1 = items ColumnIxJson_ctor @ vs" and r1: "reads m1 vs strs"
    by (rule do_appends_ok)
  from it1 have it1': "items c1 = vs" by (simp add: ColumnIxJson_ctor_def)
  have c1: "contents m1 c1 = map Inr strs" using r1 it1' by (simp add: contents_iff)
  have save: "SaveBody m1 c1 [] = Inr (wire_rows strs)"
    using SaveBody_loop_rows [OF r1, of "[]"] it1' by (simp add: SaveBody_def)
  have "wf m1 (ColumnIxJson_ctor\<lparr>items := [], blocks := []\<rparr>)" by (rule wf_reset)
  then obtain m2 c2 vs2 where
    loop: "\<forall>rest n. 0 + length strs \<le> n \<longrightarrow>
             LoadBody_loop limit m1 (ColumnIxJson_ctor\<lparr>items := [], blocks := []\<rparr>)
               (wire_rows strs @ rest) n 0
             = LoadBody_loop limit m2 c2 rest n (0 + length strs)"
    and it2: "items c2 = items (ColumnIxJson_ctor\<lparr>items := [], blocks := []\<rparr>) @ vs2"
    and r2: "reads m2 vs2 strs"
    using bound block fits by (rule LoadBody_loop_rows)
  have "reserve limit (length strs) = None" using count views by (simp add: reserve_def)
  then have "LoadBody limit m1 ColumnIxJson_ctor (wire_rows strs) (length strs) = Inr (m2, c2, [], True)"
    using loop [rule_format, of "length strs" "[]"]
    by (simp add: LoadBody_def clear_blocks_def ColumnIxJson_ctor_def LoadBody_loop_done)
  moreover have "contents m2 c2 = map Inr strs" using r2 it2 by (simp add: contents_iff)
  ultimately show ?thesis using build c1 save by blast
qed

text \<open>
  An instance: a moved string, a view and a C string of the caller's, a borrowed
  view, the empty string and a string of 5000 bytes.
\<close>

theorem SaveBody_LoadBody_roundtrip_witness:
  "\<exists>m1 c1 out m2 c2.
     do_appends [Some [Some CHR ''h'', Some CHR ''i'', Some CHR 0x00]] ColumnIxJson_ctor
       [AppendMove ''alpha'', AppendView (StringView 0 0 2), AppendCStr 0 0,
        AppendBorrowed (StringView 0 1 1), AppendMove '''', AppendMove (replicate 5000 CHR ''x'')]
       = Inr (m1, c1) \<and>
     contents m1 c1 = map Inr [''alpha'', ''hi'', ''hi'', ''i'', '''', replicate 5000 CHR ''x''] \<and>
     SaveBody m1 c1 [] = Inr out \<and>
     out = wire_rows [''alpha'', ''hi'', ''hi'', ''i'', '''', replicate 5000 CHR ''x''] \<and>
     LoadBody 5000 m1 ColumnIxJson_ctor out (length [''alpha'', ''hi'', ''hi'', ''i'', '''', replicate 5000 CHR ''x''])
       = Inr (m2, c2, [], True) \<and>
     contents m2 c2 = map Inr [''alpha'', ''hi'', ''hi'', ''i'', '''', replicate 5000 CHR ''x'']"
  by (rule SaveBody_LoadBody_roundtrip)
     (simp_all add: call_bytes_def read_bytes_def strlen_def items_max_size_def PTRDIFF_MAX_def
        sizeof_string_view_def DEFAULT_BLOCK_SIZE_def)




text \<open>
  C3. Let the rows of a column be \<open>xs\<close> (each can be read, and together they
  have fewer than \<open>2 ^ 64\<close> bytes), and let what the column owns be allocated.
  Then \<open>Slice(begin, len)\<close> returns a new column whose rows are the rows of the
  source at the positions from \<open>begin\<close> up to
  \<open>min (begin + len) (length xs)\<close>, in order; it is the empty column when
  \<open>begin\<close> is not below the row count; the source still reads as before; and
  after \<open>Clear\<close> of the source the rows of the slice read the same.
\<close>

theorem Slice_rows:
  assumes rows: "contents m c = map Inr xs" and alloc: "allocated m c"
    and total: "sum_list (map length xs) < 2 ^ 64"
  shows "\<exists>m' r.
           Slice m c begin len = Inr (m', r) \<and>
           contents m' r = map Inr (map ((!) xs) [begin ..< min (begin + len) (length xs)]) \<and>
           (length xs \<le> begin \<longrightarrow> r = ColumnIxJson_ctor) \<and>
           contents m' c = map Inr xs \<and>
           contents (fst (Clear m' c)) r
             = map Inr (map ((!) xs) [begin ..< min (begin + len) (length xs)])"
proof -
  from rows have rd: "reads m (items c) xs" by (simp add: contents_iff)
  from Slice_ok [OF rd total, of "begin" len] obtain m' r where
    S: "Slice m c begin len = Inr (m', r)" and p: "preserves m m'"
    and rr: "reads m' (items r) (take len (drop begin xs))"
    and dat: "\<forall>v \<in> set (items r). sv_data v = length m"
    and empty: "length xs \<le> begin \<longrightarrow> m' = m \<and> r = ColumnIxJson_ctor"
    by blast
  have "read_bytes (fst (Clear m' c)) v = read_bytes m' v" if "v \<in> set (items r)" for v
  proof (rule read_bytes_Clear)
    from that dat have "sv_data v = length m" by simp
    with alloc show "\<forall>b \<in> set (blocks c). data b \<noteq> sv_data v"
      "\<forall>a \<in> set (append_data c). a \<noteq> sv_data v"
      by (auto simp: allocated_def)
  qed
  then have "reads (fst (Clear m' c)) (items r) (take len (drop begin xs))"
    using rr by (simp add: list_all2_conv_all_nth)
  then have 1: "contents (fst (Clear m' c)) r = map Inr (take len (drop begin xs))"
    by (simp only: contents_iff)
  have 2: "contents m' r = map Inr (take len (drop begin xs))"
    using rr by (simp only: contents_iff)
  have "reads m' (items c) xs" using p rd by (rule reads_preserved)
  then have 3: "contents m' c = map Inr xs" by (simp only: contents_iff)
  show ?thesis
    using S empty 1 2 3 unfolding take_drop_range by blast
qed

theorem Slice_rows_witness:
  "allocated [Some [Some CHR ''x'', Some CHR ''y'', None, None], Some [Some CHR ''z''], Some [Some CHR ''w'']]
     \<lparr>items = [StringView 0 0 1, StringView 0 1 1, StringView 1 0 1, StringView 2 0 1],
      blocks = [\<lparr>bsize = 2, capacity = 4, data = 0\<rparr>], append_data = [1]\<rparr>
   \<and> (\<exists>m' r.
       Slice [Some [Some CHR ''x'', Some CHR ''y'', None, None], Some [Some CHR ''z''], Some [Some CHR ''w'']]
         \<lparr>items = [StringView 0 0 1, StringView 0 1 1, StringView 1 0 1, StringView 2 0 1],
          blocks = [\<lparr>bsize = 2, capacity = 4, data = 0\<rparr>], append_data = [1]\<rparr> 1 2 = Inr (m', r)
       \<and> contents m' r = [Inr ''y'', Inr ''z'']
       \<and> contents (fst (Clear m'
            \<lparr>items = [StringView 0 0 1, StringView 0 1 1, StringView 1 0 1, StringView 2 0 1],
             blocks = [\<lparr>bsize = 2, capacity = 4, data = 0\<rparr>], append_data = [1]\<rparr>)) r
           = [Inr ''y'', Inr ''z''])"
proof -
  let ?m = "[Some [Some CHR ''x'', Some CHR ''y'', None, None], Some [Some CHR ''z''], Some [Some CHR ''w'']]"
  let ?c = "\<lparr>items = [StringView 0 0 1, StringView 0 1 1, StringView 1 0 1, StringView 2 0 1],
      blocks = [\<lparr>bsize = 2, capacity = 4, data = 0\<rparr>], append_data = [1]\<rparr>"
  have rows: "contents ?m ?c = map Inr [''x'', ''y'', ''z'', ''w'']"
    unfolding contents_iff by (simp add: read_bytes_def)
  have alloc: "allocated ?m ?c" by (simp add: allocated_def)
  have "[1 ..< min (1 + 2) (length [''x'', ''y'', ''z'', ''w''])] = [1, 2]"
    by (simp add: upt_rec)
  moreover have "sum_list (map length [''x'', ''y'', ''z'', ''w'']) < (2 :: nat) ^ 64" by simp
  ultimately show ?thesis using Slice_rows [OF rows alloc, of 1 2] alloc by simp blast
qed

text \<open>
  C4, as amended. \<open>Append(std::string_view)\<close> on a well-formed column, of a view
  that can be read, returns; a new block is allocated if and only if the column has
  no block or the remaining capacity of the current block (capacity minus size) is
  strictly smaller than the length of the string, and the new block has capacity
  \<open>max DEFAULT_BLOCK_SIZE\<close> of that length. When a new block is allocated for a
  string longer than \<open>DEFAULT_BLOCK_SIZE\<close>, its capacity is exactly the length of
  the string and the string fills it. Otherwise the string goes to the current
  block, whatever its length.
\<close>

theorem Append_block_policy:
  assumes wf: "wf m c" and rd: "read_bytes m str = Some bs"
  shows "\<exists>m' c'.
           Append m c str = Inr (m', c') \<and>
           (if blocks c = [] \<or> capacity (last (blocks c)) - bsize (last (blocks c)) < sv_size str
            then length m' = Suc (length m) \<and>
                 blocks c' = blocks c @
                   [\<lparr>bsize = sv_size str, capacity = max DEFAULT_BLOCK_SIZE (sv_size str),
                     data = length m\<rparr>] \<and>
                 items c' = items c @ [StringView (length m) 0 (sv_size str)] \<and>
                 (DEFAULT_BLOCK_SIZE < sv_size str \<longrightarrow>
                    capacity (last (blocks c')) = sv_size str \<and>
                    GetAvailable (last (blocks c')) = 0)
            else length m' = length m \<and>
                 blocks c' = butlast (blocks c) @
                   [(last (blocks c))\<lparr>bsize := bsize (last (blocks c)) + sv_size str\<rparr>] \<and>
                 items c' = items c @
                   [StringView (data (last (blocks c))) (bsize (last (blocks c))) (sv_size str)])"
proof -
  let ?n = "sv_size str"
  let ?new = "length (blocks c) = 0 \<or> GetAvailable (last (blocks c)) < ?n"
  have cond: "?new \<longleftrightarrow> blocks c = [] \<or> capacity (last (blocks c)) - bsize (last (blocks c)) < ?n"
    using wf_last_block(2) [OF wf] by (cases "blocks c = []") (simp_all add: GetAvailable_ok)
  show ?thesis
  proof (cases ?new)
    case True
    let ?cap = "max DEFAULT_BLOCK_SIZE ?n"
    let ?m1 = "m @ [Some (replicate ?cap None)]"
    let ?c1 = "c\<lparr>blocks := blocks c @ [\<lparr>bsize = 0, capacity = ?cap, data = length m\<rparr>]\<rparr>"
    have wf1: "wf ?m1 ?c1" by (rule wf_emplace_block)
    have r1: "read_bytes ?m1 str = Some bs" using preserves_grow rd by (rule preservesD)
    have ne1: "blocks ?c1 \<noteq> []" by simp
    have room1: "bsize (last (blocks ?c1)) + ?n \<le> capacity (last (blocks ?c1))" by simp
    let ?c' = "?c1\<lparr>items := items ?c1 @ [StringView (data (last (blocks ?c1))) (bsize (last (blocks ?c1))) ?n],
                  blocks := butlast (blocks ?c1) @ [(last (blocks ?c1))\<lparr>bsize := bsize (last (blocks ?c1)) + ?n\<rparr>]\<rparr>"
    from wf1 ne1 r1 room1 obtain m' where
      A: "AppendUnsafe ?m1 ?c1 str = Inr (m', ?c')" and l: "length m' = length ?m1"
      by (rule AppendUnsafe_ok)
    have "Append m c str = Inr (m', ?c')"
      using True A by (simp add: Append_def emplace_block_eq)
    moreover have "blocks ?c' = blocks c @ [\<lparr>bsize = ?n, capacity = ?cap, data = length m\<rparr>]" by simp
    moreover have "items ?c' = items c @ [StringView (length m) 0 ?n]" by simp
    moreover have "DEFAULT_BLOCK_SIZE < ?n \<longrightarrow>
        capacity (last (blocks ?c')) = ?n \<and> GetAvailable (last (blocks ?c')) = 0"
      by (simp add: GetAvailable_def size_t_minus_def)
    ultimately show ?thesis using True cond l
      by (intro exI [of _ m'] exI [of _ ?c']) (simp del: One_nat_def)
  next
    case False
    then have ne: "blocks c \<noteq> []" and av: "?n \<le> GetAvailable (last (blocks c))" by auto
    have "bsize (last (blocks c)) \<le> capacity (last (blocks c))" using wf ne by (rule wf_last_block)
    with av have room: "bsize (last (blocks c)) + ?n \<le> capacity (last (blocks c))"
      by (simp add: GetAvailable_ok)
    let ?c' = "c\<lparr>items := items c @ [StringView (data (last (blocks c))) (bsize (last (blocks c))) ?n],
                  blocks := butlast (blocks c) @ [(last (blocks c))\<lparr>bsize := bsize (last (blocks c)) + ?n\<rparr>]\<rparr>"
    from wf ne rd room obtain m' where
      A: "AppendUnsafe m c str = Inr (m', ?c')" and l: "length m' = length m"
      by (rule AppendUnsafe_ok)
    have "Append m c str = Inr (m', ?c')"
      using False A by (simp add: Append_def)
    then show ?thesis using False cond l
      by (intro exI [of _ m'] exI [of _ ?c']) simp
  qed
qed

theorem Append_block_policy_witness:
  "wf [Some [Some CHR ''a'', None], Some (replicate 5000 (Some CHR ''x''))]
      \<lparr>items = [StringView 0 0 1], blocks = [\<lparr>bsize = 1, capacity = 2, data = 0\<rparr>], append_data = []\<rparr>
   \<and> (\<exists>m' c'.
        Append [Some [Some CHR ''a'', None], Some (replicate 5000 (Some CHR ''x''))]
          \<lparr>items = [StringView 0 0 1], blocks = [\<lparr>bsize = 1, capacity = 2, data = 0\<rparr>], append_data = []\<rparr>
          (StringView 1 0 5000) = Inr (m', c')
        \<and> length m' = 3
        \<and> blocks c' = [\<lparr>bsize = 1, capacity = 2, data = 0\<rparr>, \<lparr>bsize = 5000, capacity = 5000, data = 2\<rparr>]
        \<and> items c' = [StringView 0 0 1, StringView 2 0 5000])"
proof -
  let ?m = "[Some [Some CHR ''a'', None], Some (replicate 5000 (Some CHR ''x''))]"
  let ?c = "\<lparr>items = [StringView 0 0 1], blocks = [\<lparr>bsize = 1, capacity = 2, data = 0\<rparr>], append_data = []\<rparr>"
  have wf: "wf ?m ?c" by (simp add: wf_def block_ok_def)
  have rd: "read_bytes ?m (StringView 1 0 5000) = Some (replicate 5000 CHR ''x'')"
    by (simp add: read_bytes_def)
  from Append_block_policy [OF wf rd] wf show ?thesis
    by (simp add: DEFAULT_BLOCK_SIZE_def numeral_2_eq_2 numeral_3_eq_3) blast
qed

text \<open>
  C4 as stated fails in its last part: a string longer than 4096 bytes does not
  always get a block of its own. A \<open>LoadBody\<close> that fails after the length prefix
  10000 (with an allocator that serves 10000 bytes) leaves an empty block of capacity 10000 behind; a string of 5000 bytes
  appended next is copied into that block, and no block is allocated.
\<close>

theorem Append_oversized_shares_block_counterexample:
  "LoadBody 10000 [] ColumnIxJson_ctor (le_encode 8 10000) 1
     = Inr ([Some (replicate 10000 None)],
            \<lparr>items = [], blocks = [\<lparr>bsize = 0, capacity = 10000, data = 0\<rparr>], append_data = []\<rparr>,
            [], False)
   \<and> Append [Some (replicate 10000 None), Some (replicate 5000 (Some CHR ''x''))]
        \<lparr>items = [], blocks = [\<lparr>bsize = 0, capacity = 10000, data = 0\<rparr>], append_data = []\<rparr>
        (StringView 1 0 5000)
     = Inr ([Some (replicate 5000 (Some CHR ''x'') @ replicate 5000 None),
             Some (replicate 5000 (Some CHR ''x''))],
            \<lparr>items = [StringView 0 0 5000],
             blocks = [\<lparr>bsize = 5000, capacity = 10000, data = 0\<rparr>], append_data = []\<rparr>)"
proof -
  have r: "reserve 10000 1 = None"
    by (simp add: reserve_def items_max_size_def PTRDIFF_MAX_def sizeof_string_view_def)
  have "ReadUInt64 (le_encode 8 10000) = Some (10000, [])"
    using ReadUInt64_prefix [of 10000 "[]"] by simp
  then have 1: "LoadBody 10000 [] ColumnIxJson_ctor (le_encode 8 10000) 1
     = Inr ([Some (replicate 10000 None)],
            \<lparr>items = [], blocks = [\<lparr>bsize = 0, capacity = 10000, data = 0\<rparr>], append_data = []\<rparr>,
            [], False)"
    by (simp add: LoadBody_def r [simplified] LoadBody_loop.simps clear_blocks_def ColumnIxJson_ctor_def
        emplace_block_within_def emplace_block_eq ReadBytes_def DEFAULT_BLOCK_SIZE_def)
  have 2: "Append [Some (replicate 10000 None), Some (replicate 5000 (Some CHR ''x''))]
        \<lparr>items = [], blocks = [\<lparr>bsize = 0, capacity = 10000, data = 0\<rparr>], append_data = []\<rparr>
        (StringView 1 0 5000)
     = Inr ([Some (replicate 5000 (Some CHR ''x'') @ replicate 5000 None),
             Some (replicate 5000 (Some CHR ''x''))],
            \<lparr>items = [StringView 0 0 5000],
             blocks = [\<lparr>bsize = 5000, capacity = 10000, data = 0\<rparr>], append_data = []\<rparr>)"
    by (simp add: Append_def GetAvailable_def size_t_minus_def AppendUnsafe_def
        Block_AppendUnsafe_def read_bytes_def write_bytes_def)
  from 1 2 show ?thesis by (rule conjI)
qed

text \<open>
  C5. In every state, whenever one of the four single-value appends returns, the
  row count is one more than before (the move and the borrowed view always return;
  the two copies return on a well-formed column when the value can be read).
  Whenever the bulk append of a column of this class returns, the row count of the
  receiver has grown by the row count of the argument; it returns when the argument
  is another object than the receiver, the receiver is well formed and the rows of
  the argument can be read (at most \<open>SIZE_MAX\<close> rows, of fewer than \<open>2 ^ 64\<close>
  bytes together). After \<open>Clear\<close> the row count is 0.
\<close>

theorem Size_after_appends_and_Clear:
  "(Append m c str = Inr (m', c') \<longrightarrow> Size c' = Size c + 1) \<and>
   (Append_cstr m c a off = Inr (m', c') \<longrightarrow> Size c' = Size c + 1) \<and>
   Size (snd (Append_move m c steal_value)) = Size c + 1 \<and>
   Size (AppendNoManagedLifetime c str) = Size c + 1 \<and>
   (wf m c \<and> call_bytes m call \<noteq> None \<longrightarrow>
      (\<exists>m2 c2. do_append m c call = Inr (m2, c2) \<and> Size c2 = Size c + 1)) \<and>
   (Append_column w this column = Some (Inr w') \<and>
    As_ColumnIxJson w this = Some A \<and> As_ColumnIxJson w column = Some B \<longrightarrow>
      (\<exists>A'. As_ColumnIxJson w' this = Some A' \<and> Size A' = Size A + Size B)) \<and>
   (this \<noteq> column \<and> As_ColumnIxJson w this = Some A \<and> As_ColumnIxJson w column = Some B \<and>
    wf (mem w) A \<and> contents (mem w) B = map Inr ys \<and> Size B \<le> SIZE_MAX \<and>
    sum_list (map length ys) < 2 ^ 64 \<longrightarrow>
      (\<exists>w2 A'. Append_column w this column = Some (Inr w2) \<and>
               As_ColumnIxJson w2 this = Some A' \<and> Size A' = Size A + Size B)) \<and>
   Size (snd (Clear m c)) = 0"
proof (intro conjI impI)
  show "Size c' = Size c + 1" if "Append m c str = Inr (m', c')"
    using that by (rule Append_size)
  show "Size c' = Size c + 1" if "Append_cstr m c a off = Inr (m', c')"
    using that by (rule Append_cstr_size)
  show "Size (snd (Append_move m c steal_value)) = Size c + 1"
    by (simp add: Append_move_def new_string_def Size_def)
  show "Size (AppendNoManagedLifetime c str) = Size c + 1"
    by (simp add: AppendNoManagedLifetime_def Size_def)
  show "Size (snd (Clear m c)) = 0"
    by (simp add: Clear_def Size_def)
  show "\<exists>m2 c2. do_append m c call = Inr (m2, c2) \<and> Size c2 = Size c + 1"
    if "wf m c \<and> call_bytes m call \<noteq> None"
  proof -
    from that obtain bs where wf: "wf m c" and cb: "call_bytes m call = Some bs" by auto
    from wf cb obtain m2 c2 v where "do_append m c call = Inr (m2, c2)" "items c2 = items c @ [v]"
      by (rule do_append_ok)
    then show ?thesis by (auto simp: Size_def)
  qed
  show "\<exists>A'. As_ColumnIxJson w' this = Some A' \<and> Size A' = Size A + Size B"
    if h: "Append_column w this column = Some (Inr w') \<and>
        As_ColumnIxJson w this = Some A \<and> As_ColumnIxJson w column = Some B"
  proof -
    from h have "Append_column w this column = Some (Inr w')" "As_ColumnIxJson w this = Some A"
      "As_ColumnIxJson w column = Some B" by simp_all
    then show ?thesis by (rule Append_column_size)
  qed
  show "\<exists>w2 A'. Append_column w this column = Some (Inr w2) \<and>
               As_ColumnIxJson w2 this = Some A' \<and> Size A' = Size A + Size B"
    if h: "this \<noteq> column \<and> As_ColumnIxJson w this = Some A \<and> As_ColumnIxJson w column = Some B \<and>
        wf (mem w) A \<and> contents (mem w) B = map Inr ys \<and> Size B \<le> SIZE_MAX \<and>
        sum_list (map length ys) < 2 ^ 64"
  proof -
    from h have ne: "this \<noteq> column" and A: "As_ColumnIxJson w this = Some A"
      and B: "As_ColumnIxJson w column = Some B" and wf: "wf (mem w) A"
      and rd: "reads (mem w) (items B) ys" and bound: "Size B \<le> SIZE_MAX"
      and bytes: "sum_list (map length ys) < 2 ^ 64"
      by (simp_all add: contents_iff)
    from ne A B wf rd bound bytes obtain w2 A' vs where
      run: "Append_column w this column = Some (Inr w2)"
      by (rule Append_column_ok)
    from Append_column_size [OF run A B] run show ?thesis by blast
  qed
qed

theorem Size_after_appends_and_Clear_witness:
  "(\<exists>m2 c2. do_append [Some [Some CHR ''a'', Some CHR 0x00]] ColumnIxJson_ctor (AppendCStr 0 0) = Inr (m2, c2)
       \<and> Size c2 = Size ColumnIxJson_ctor + 1) \<and>
   (\<exists>w2 A'.
      Append_column
        \<lparr>mem = [Some [Some CHR ''a''], Some [Some CHR ''b'', Some CHR ''c'']],
         objs = [IxJson \<lparr>items = [StringView 0 0 1], blocks = [], append_data = [0]\<rparr>,
                 IxJson \<lparr>items = [StringView 1 0 2, StringView 1 1 1], blocks = [], append_data = [1]\<rparr>]\<rparr>
        0 1 = Some (Inr w2) \<and>
      As_ColumnIxJson w2 0 = Some A' \<and> Size A' = 3)"
proof -
  let ?m = "[Some [Some CHR ''a'', Some CHR 0x00]]"
  let ?A = "\<lparr>items = [StringView 0 0 1], blocks = [], append_data = [0]\<rparr>"
  let ?B = "\<lparr>items = [StringView 1 0 2, StringView 1 1 1], blocks = [], append_data = [1]\<rparr>"
  let ?w = "\<lparr>mem = [Some [Some CHR ''a''], Some [Some CHR ''b'', Some CHR ''c'']],
         objs = [IxJson ?A, IxJson ?B]\<rparr>"
  have 1: "wf ?m ColumnIxJson_ctor \<and> call_bytes ?m (AppendCStr 0 0) \<noteq> None"
    by (simp add: wf_ctor call_bytes_def strlen_def read_bytes_def)
  have "contents (mem ?w) ?B = map Inr [''bc'', ''c'']"
    unfolding contents_iff by (simp add: read_bytes_def)
  then have 2: "(0::nat) \<noteq> 1 \<and> As_ColumnIxJson ?w 0 = Some ?A \<and> As_ColumnIxJson ?w 1 = Some ?B \<and>
    wf (mem ?w) ?A \<and> contents (mem ?w) ?B = map Inr [''bc'', ''c''] \<and> Size ?B \<le> SIZE_MAX \<and>
    sum_list (map length [''bc'', ''c'']) < (2 :: nat) ^ 64"
    by (simp add: As_ColumnIxJson_def wf_def Size_def SIZE_MAX_def)
  note T = Size_after_appends_and_Clear [where m = ?m and c = ColumnIxJson_ctor
      and call = "AppendCStr 0 0" and w = ?w and this = 0 and column = 1 and A = ?A and B = ?B
      and ys = "[''bc'', ''c'']"]
  from T 1 have a: "\<exists>m2 c2. do_append ?m ColumnIxJson_ctor (AppendCStr 0 0) = Inr (m2, c2)
       \<and> Size c2 = Size ColumnIxJson_ctor + 1"
    by blast
  from T 2 have "\<exists>w2 A'. Append_column ?w 0 1 = Some (Inr w2) \<and>
      As_ColumnIxJson w2 0 = Some A' \<and> Size A' = Size ?A + Size ?B"
    by blast
  then have b: "\<exists>w2 A'. Append_column ?w 0 1 = Some (Inr w2) \<and>
      As_ColumnIxJson w2 0 = Some A' \<and> Size A' = 3"
    by (simp add: Size_def numeral_3_eq_3)
  from a b show ?thesis by (rule conjI)
qed

text \<open>
  C6. Let row \<open>n\<close> of a well-formed column read as \<open>bs\<close>. After any number of
  further appends, of any of the four kinds, that return, \<open>At(n)\<close> returns the same
  view and it reads as \<open>bs\<close>, however many blocks and strings were allocated
  meanwhile (and the row count has grown by the number of calls). The appends do
  return when each value passed can be read.
\<close>

theorem earlier_rows_stable:
  assumes wf: "wf m c" and row: "row m c n = Inr bs"
  shows "(\<forall>m' c'. do_appends m c calls = Inr (m', c') \<longrightarrow>
            row m' c' n = Inr bs \<and> At c' n = At c n \<and> Size c' = Size c + length calls) \<and>
         (list_all (\<lambda>call. call_bytes m call \<noteq> None) calls \<longrightarrow>
            (\<exists>m' c'. do_appends m c calls = Inr (m', c')))"
proof (intro conjI allI impI)
  fix m' c' assume run: "do_appends m c calls = Inr (m', c')"
  from row have n: "n < length (items c)" and rd: "read_bytes m (items c ! n) = Some bs"
    by (simp_all add: row_Inr_iff)
  from do_appends_frame [OF wf run] obtain vs where p: "preserves m m'"
    and len: "length vs = length calls" and it: "items c' = items c @ vs"
    by blast
  have same: "items c' ! n = items c ! n" using it n by (simp add: nth_append)
  have "read_bytes m' (items c' ! n) = Some bs" using p rd same by (simp add: preservesD)
  then show "row m' c' n = Inr bs" using it n by (simp add: row_Inr_iff)
  show "At c' n = At c n" using it n same by (simp add: At_def)
  show "Size c' = Size c + length calls" using it len by (simp add: Size_def)
next
  assume "list_all (\<lambda>call. call_bytes m call \<noteq> None) calls"
  then have "map (call_bytes m) calls = map Some (map (\<lambda>call. the (call_bytes m call)) calls)"
    by (induction calls) auto
  with wf obtain m' c' where "do_appends m c calls = Inr (m', c')"
    by (rule do_appends_ok)
  then show "\<exists>m' c'. do_appends m c calls = Inr (m', c')" by blast
qed

theorem earlier_rows_stable_witness:
  "\<exists>m' c'.
     do_appends [Some [Some CHR ''a'', Some CHR ''b'', Some CHR 0x00]]
       \<lparr>items = [StringView 0 1 1], blocks = [], append_data = []\<rparr>
       [AppendMove ''x'', AppendBorrowed (StringView 0 0 1), AppendView (StringView 0 0 2),
        AppendCStr 0 0] = Inr (m', c') \<and>
     row m' c' 0 = Inr ''b'' \<and>
     At c' 0 = At \<lparr>items = [StringView 0 1 1], blocks = [], append_data = []\<rparr> 0 \<and>
     Size c' = 5"
proof -
  let ?m = "[Some [Some CHR ''a'', Some CHR ''b'', Some CHR 0x00]]"
  let ?c = "\<lparr>items = [StringView 0 1 1], blocks = [], append_data = []\<rparr>"
  let ?calls = "[AppendMove ''x'', AppendBorrowed (StringView 0 0 1), AppendView (StringView 0 0 2),
        AppendCStr 0 0]"
  have wf: "wf ?m ?c" by (simp add: wf_def)
  have row: "row ?m ?c 0 = Inr ''b''" by (simp add: row_Inr_iff read_bytes_def)
  have ok: "list_all (\<lambda>call. call_bytes ?m call \<noteq> None) ?calls"
    by (simp add: call_bytes_def read_bytes_def strlen_def)
  from earlier_rows_stable [OF wf row, of ?calls] ok obtain m' c' where
    run: "do_appends ?m ?c ?calls = Inr (m', c')" by blast
  with earlier_rows_stable [OF wf row, of ?calls] show ?thesis by (simp add: Size_def)
qed

text \<open>
  C7. Let \<open>A\<close> and \<open>B\<close> be two distinct column objects of this class, \<open>A\<close> well
  formed, with rows \<open>xs\<close> and \<open>ys\<close> (each can be read; \<open>B\<close> has at most
  \<open>SIZE_MAX\<close> rows, of fewer than \<open>2 ^ 64\<close> bytes together). Then \<open>A.Append(B)\<close>
  returns; afterwards the rows of \<open>A\<close> are \<open>xs\<close> followed by \<open>ys\<close>, the object
  \<open>B\<close> is as it was and still reads as \<open>ys\<close>, and no other object has changed.
\<close>

theorem Append_column_rows:
  assumes ne: "this \<noteq> column"
    and A: "As_ColumnIxJson w this = Some A" and B: "As_ColumnIxJson w column = Some B"
    and wf: "wf (mem w) A"
    and rowsA: "contents (mem w) A = map Inr xs" and rowsB: "contents (mem w) B = map Inr ys"
    and bound: "Size B \<le> SIZE_MAX" and bytes: "sum_list (map length ys) < 2 ^ 64"
  shows "\<exists>w' A'.
           Append_column w this column = Some (Inr w') \<and>
           As_ColumnIxJson w' this = Some A' \<and>
           contents (mem w') A' = map Inr (xs @ ys) \<and>
           As_ColumnIxJson w' column = Some B \<and>
           contents (mem w') B = map Inr ys \<and>
           objs w' = (objs w)[this := IxJson A']"
proof -
  from rowsA rowsB have rA: "reads (mem w) (items A) xs" and rB: "reads (mem w) (items B) ys"
    by (simp_all only: contents_iff)
  from ne A B wf rB bound bytes obtain w' A' vs where
    run: "Append_column w this column = Some (Inr w')"
    and w': "w' = put w this (mem w') A'" and p: "preserves (mem w) (mem w')"
    and it: "items A' = items A @ vs" and rv: "reads (mem w') vs ys"
    by (rule Append_column_ok)
  have this_lt: "this < length (objs w)" using A by (simp add: As_SomeD)
  have "As_ColumnIxJson (put w this (mem w') A') this = Some A'" using this_lt by (rule As_put_same)
  then have 1: "As_ColumnIxJson w' this = Some A'" using w' by simp
  have "As_ColumnIxJson (put w this (mem w') A') column = Some B"
    using ne B by (simp add: As_put_other)
  then have 2: "As_ColumnIxJson w' column = Some B" using w' by simp
  have "reads (mem w') (items A @ vs) (xs @ ys)"
    using reads_preserved [OF p rA] rv by (rule list_all2_appendI)
  then have 3: "contents (mem w') A' = map Inr (xs @ ys)" using it by (simp only: contents_iff)
  have "reads (mem w') (items B) ys" using p rB by (rule reads_preserved)
  then have 4: "contents (mem w') B = map Inr ys" by (simp only: contents_iff)
  have "objs (put w this (mem w') A') = (objs w)[this := IxJson A']" by simp
  then have 5: "objs w' = (objs w)[this := IxJson A']" using w' by simp
  from run 1 2 3 4 5 show ?thesis by blast
qed

theorem Append_column_rows_witness:
  "\<exists>w' A'.
     Append_column
       \<lparr>mem = [Some [Some CHR ''a''], Some [Some CHR ''b'', Some CHR ''c'']],
        objs = [IxJson \<lparr>items = [StringView 0 0 1], blocks = [], append_data = [0]\<rparr>,
                IxJson \<lparr>items = [StringView 1 0 2, StringView 1 1 1], blocks = [], append_data = [1]\<rparr>]\<rparr>
       0 1 = Some (Inr w') \<and>
     As_ColumnIxJson w' 0 = Some A' \<and>
     contents (mem w') A' = map Inr ([''a''] @ [''bc'', ''c'']) \<and>
     As_ColumnIxJson w' 1
       = Some \<lparr>items = [StringView 1 0 2, StringView 1 1 1], blocks = [], append_data = [1]\<rparr> \<and>
     contents (mem w') \<lparr>items = [StringView 1 0 2, StringView 1 1 1], blocks = [], append_data = [1]\<rparr>
       = map Inr [''bc'', ''c''] \<and>
     objs w' =
       (objs \<lparr>mem = [Some [Some CHR ''a''], Some [Some CHR ''b'', Some CHR ''c'']],
        objs = [IxJson \<lparr>items = [StringView 0 0 1], blocks = [], append_data = [0]\<rparr>,
                IxJson \<lparr>items = [StringView 1 0 2, StringView 1 1 1], blocks = [], append_data = [1]\<rparr>]\<rparr>)
       [0 := IxJson A']"
proof (rule Append_column_rows [where A = "\<lparr>items = [StringView 0 0 1], blocks = [], append_data = [0]\<rparr>"])
  show "contents (mem \<lparr>mem = [Some [Some CHR ''a''], Some [Some CHR ''b'', Some CHR ''c'']],
        objs = [IxJson \<lparr>items = [StringView 0 0 1], blocks = [], append_data = [0]\<rparr>,
                IxJson \<lparr>items = [StringView 1 0 2, StringView 1 1 1], blocks = [], append_data = [1]\<rparr>]\<rparr>)
          \<lparr>items = [StringView 0 0 1], blocks = [], append_data = [0]\<rparr> = map Inr [''a'']"
    unfolding contents_iff by (simp add: read_bytes_def)
  show "contents (mem \<lparr>mem = [Some [Some CHR ''a''], Some [Some CHR ''b'', Some CHR ''c'']],
        objs = [IxJson \<lparr>items = [StringView 0 0 1], blocks = [], append_data = [0]\<rparr>,
                IxJson \<lparr>items = [StringView 1 0 2, StringView 1 1 1], blocks = [], append_data = [1]\<rparr>]\<rparr>)
          \<lparr>items = [StringView 1 0 2, StringView 1 1 1], blocks = [], append_data = [1]\<rparr>
        = map Inr [''bc'', ''c'']"
    unfolding contents_iff by (simp add: read_bytes_def)
qed (simp_all add: As_ColumnIxJson_def wf_def Size_def SIZE_MAX_def)

text \<open>
  C8. Bulk \<open>Append\<close> with a column of another concrete type is a silent no-op: it
  returns normally, with no error, and the whole state (the receiver's rows, blocks
  and owned strings, every other object and the memory) is as before.
\<close>

theorem Append_column_type_mismatch:
  assumes "As_ColumnIxJson w this = Some self"
    and "column < length (objs w)"
    and "objs w ! column = OtherColumn"
  shows "Append_column w this column = Some (Inr w)"
  using assms by (simp add: Append_column_def As_ColumnIxJson_def)

theorem Append_column_type_mismatch_witness:
  "Append_column
     \<lparr>mem = [Some [Some CHR ''a'']],
      objs = [IxJson \<lparr>items = [StringView 0 0 1], blocks = [], append_data = [0]\<rparr>, OtherColumn]\<rparr>
     0 1
   = Some (Inr \<lparr>mem = [Some [Some CHR ''a'']],
      objs = [IxJson \<lparr>items = [StringView 0 0 1], blocks = [], append_data = [0]\<rparr>, OtherColumn]\<rparr>)"
  by (rule Append_column_type_mismatch [where self = "\<lparr>items = [StringView 0 0 1], blocks = [], append_data = [0]\<rparr>"])
     (simp_all add: As_ColumnIxJson_def)

text \<open>
  C9. \<open>Swap\<close> with a column of the same class returns, and afterwards each of the
  two objects has the row index, the blocks and the owned strings that the other
  had (the memory and all other objects are unchanged); \<open>Swap\<close> with a column of
  another class does not return: it ends in \<open>std::bad_cast\<close>.
\<close>

theorem Swap_exchanges_or_throws:
  assumes A: "As_ColumnIxJson w this = Some A" and other: "other < length (objs w)"
  shows "(\<forall>B. As_ColumnIxJson w other = Some B \<longrightarrow>
            (\<exists>w'. Swap w this other = Inr w' \<and>
                  As_ColumnIxJson w' this = Some B \<and> As_ColumnIxJson w' other = Some A \<and>
                  mem w' = mem w \<and>
                  objs w' = (objs w)[this := IxJson B, other := IxJson A])) \<and>
         (objs w ! other = OtherColumn \<longrightarrow> Swap w this other = Inl BadCast)"
proof (intro conjI allI impI)
  fix B assume B: "As_ColumnIxJson w other = Some B"
  have this_lt: "this < length (objs w)" using A by (simp add: As_SomeD)
  show "\<exists>w'. Swap w this other = Inr w' \<and>
                  As_ColumnIxJson w' this = Some B \<and> As_ColumnIxJson w' other = Some A \<and>
                  mem w' = mem w \<and>
                  objs w' = (objs w)[this := IxJson B, other := IxJson A]"
  proof (cases "this = other")
    case True
    with A B have [simp]: "B = A" by simp
    have "(objs w)[this := IxJson A] = objs w" using A by (metis As_SomeD list_update_id)
    then show ?thesis
      using A other True
      by (simp add: Swap_def swap_items_def swap_blocks_def swap_append_data_def As_ColumnIxJson_def
          ColumnIxJson_fields)
  next
    case False
    then show ?thesis
      using A B other this_lt
      by (auto simp: Swap_def swap_items_def swap_blocks_def swap_append_data_def
          As_ColumnIxJson_def list_update_swap [of this other] ColumnIxJson_fields)
  qed
next
  assume "objs w ! other = OtherColumn"
  then show "Swap w this other = Inl BadCast"
    using A other by (simp add: Swap_def As_ColumnIxJson_def)
qed

theorem Swap_exchanges_or_throws_witness:
  "Swap \<lparr>mem = [Some [Some CHR ''a''], Some [None, None]],
         objs = [IxJson \<lparr>items = [StringView 0 0 1], blocks = [], append_data = [0]\<rparr>,
                 IxJson \<lparr>items = [], blocks = [\<lparr>bsize = 0, capacity = 2, data = 1\<rparr>], append_data = []\<rparr>,
                 OtherColumn]\<rparr> 0 1
     = Inr \<lparr>mem = [Some [Some CHR ''a''], Some [None, None]],
         objs = [IxJson \<lparr>items = [], blocks = [\<lparr>bsize = 0, capacity = 2, data = 1\<rparr>], append_data = []\<rparr>,
                 IxJson \<lparr>items = [StringView 0 0 1], blocks = [], append_data = [0]\<rparr>,
                 OtherColumn]\<rparr>
   \<and> Swap \<lparr>mem = [Some [Some CHR ''a''], Some [None, None]],
         objs = [IxJson \<lparr>items = [StringView 0 0 1], blocks = [], append_data = [0]\<rparr>,
                 IxJson \<lparr>items = [], blocks = [\<lparr>bsize = 0, capacity = 2, data = 1\<rparr>], append_data = []\<rparr>,
                 OtherColumn]\<rparr> 0 2
     = Inl BadCast"
proof -
  let ?A = "\<lparr>items = [StringView 0 0 1], blocks = [], append_data = [0]\<rparr>"
  let ?B = "\<lparr>items = [], blocks = [\<lparr>bsize = 0, capacity = 2, data = 1\<rparr>], append_data = []\<rparr>"
  let ?w = "\<lparr>mem = [Some [Some CHR ''a''], Some [None, None]], objs = [IxJson ?A, IxJson ?B, OtherColumn]\<rparr>"
  have A: "As_ColumnIxJson ?w 0 = Some ?A" by (simp add: As_ColumnIxJson_def)
  have B: "As_ColumnIxJson ?w 1 = Some ?B" by (simp add: As_ColumnIxJson_def)
  from Swap_exchanges_or_throws [OF A, of 1] B obtain w' where
    "Swap ?w 0 1 = Inr w'" "mem w' = mem ?w" "objs w' = (objs ?w)[0 := IxJson ?B, 1 := IxJson ?A]"
    by auto
  then have 1: "Swap ?w 0 1 = Inr \<lparr>mem = [Some [Some CHR ''a''], Some [None, None]],
         objs = [IxJson ?B, IxJson ?A, OtherColumn]\<rparr>"
    by (cases w') simp
  from Swap_exchanges_or_throws [OF A, of 2] have 2: "Swap ?w 0 2 = Inl BadCast" by simp
  from 1 2 show ?thesis by (rule conjI)
qed




end
